theory Spec2Isabelle
  imports Complex_Main
begin

section \<open>Data model of \<open>jina/types/arrays/traversable.py\<close>\<close>

text \<open>
  \<open>TraversableSequence\<close> is a mixin of the collection class \<open>DocumentArray\<close>. Several
  properties of its operations are about object identity (which collection object is
  yielded), so collections live in an explicit store: an address is an index into the list
  of all collection objects allocated so far, and constructing a \<open>DocumentArray\<close> appends
  one object to that list.
\<close>

type_synonym cref = nat

type_synonym ndarray = "int list"

text \<open>
  Values of the named attributes that \<open>getattr(d, require_attr)\<close> reads, with Python's
  truthiness.
\<close>

datatype pyval = VNone | VBool bool | VInt int | VStr string

fun truthy :: "pyval \<Rightarrow> bool" where
  "truthy VNone = False"
| "truthy (VBool b) = b"
| "truthy (VInt n) = (n \<noteq> 0)"
| "truthy (VStr s) = (s \<noteq> [])"

text \<open>
  Modelled from the spec: the class \<open>Document\<close> is not part of the source file. A document
  exposes its children \<open>d.chunks\<close> and its matches \<open>d.matches\<close>, both collections, and
  named attributes that hold a value or nothing. The two array-valued attributes,
  \<open>embedding\<close> and \<open>blob\<close>, hold \<open>None\<close> or an array (its entries abstracted to integers,
  \<open>Some []\<close> being the empty array that is present); every other attribute is looked up in
  \<open>attrs\<close>, a missing name reading as \<open>None\<close>.
\<close>

record document =
  doc_id :: nat
  chunks :: cref
  matches :: cref
  embedding :: "ndarray option"
  blob :: "ndarray option"
  attrs :: "(string \<times> pyval) list"

type_synonym store = "document list list"

text \<open>
  Modelled from the spec: the collection class \<open>DocumentArray\<close> is not part of the
  source file. The operations use its ordered iteration, its length, its truthiness
  (non-empty), slicing by position, construction from a sequence of documents and
  \<open>append\<close>; they are \<open>coll\<close>, \<open>slice\<close>, \<open>DocumentArray\<close> and \<open>append_doc\<close> below.
\<close>

definition allocated :: "store \<Rightarrow> cref \<Rightarrow> bool" where
  "allocated st r = (r < length st)"

text \<open>The documents of the collection at an address (no object, no documents).\<close>

definition coll :: "store \<Rightarrow> cref \<Rightarrow> document list" where
  "coll st r = (if r < length st then st ! r else [])"

text \<open>\<open>DocumentArray(xs)\<close>: a new collection object holding \<open>xs\<close>.\<close>

definition DocumentArray :: "store \<Rightarrow> document list \<Rightarrow> cref \<times> store" where
  "DocumentArray st xs = (length st, st @ [xs])"

text \<open>\<open>_batch.append(d)\<close>: in-place update of the collection object at \<open>b\<close>.\<close>

definition append_doc :: "store \<Rightarrow> cref \<Rightarrow> document \<Rightarrow> store" where
  "append_doc st b d = (if b < length st then st[b := st ! b @ [d]] else st)"

text \<open>
  Every child and match reference held in the store points to an allocated collection.
\<close>

definition wf_store :: "store \<Rightarrow> bool" where
  "wf_store st =
     list_all (list_all (\<lambda>d. chunks d < length st \<and> matches d < length st)) st"

datatype error =
    TypeError_traversal_paths
  | ValueError_path char
  | ValueError_batch_size

text \<open>
  A generator, consumed to its end: the collections it yielded, in order, and the exception
  that ended it, if any.
\<close>

type_synonym gen_result = "cref list \<times> error option"

text \<open>
  The argument \<open>traversal_paths\<close> as Python passes it: \<open>None\<close>, a bare string, a sequence
  (list or tuple) of strings and other objects, or any other object, of which only the
  truthiness matters.
\<close>

datatype path_elem = PStr string | PNonStr

datatype path_spec = SpecNone | SpecStr string | SpecSeq "path_elem list" | SpecOther bool

fun spec_truthy :: "path_spec \<Rightarrow> bool" where
  "spec_truthy SpecNone = False"
| "spec_truthy (SpecStr s) = (s \<noteq> [])"
| "spec_truthy (SpecSeq ps) = (ps \<noteq> [])"
| "spec_truthy (SpecOther b) = b"

fun is_str_spec :: "path_spec \<Rightarrow> bool" where
  "is_str_spec (SpecStr s) = True"
| "is_str_spec _ = False"

fun is_Sequence :: "path_spec \<Rightarrow> bool" where
  "is_Sequence (SpecStr s) = True"
| "is_Sequence (SpecSeq ps) = True"
| "is_Sequence _ = False"

fun is_str_elem :: "path_elem \<Rightarrow> bool" where
  "is_str_elem (PStr s) = True"
| "is_str_elem PNonStr = False"

text \<open>Iterating the argument: the characters of a string, the elements of a sequence.\<close>

fun spec_elems :: "path_spec \<Rightarrow> path_elem list" where
  "spec_elems (SpecStr s) = map (\<lambda>c. PStr [c]) s"
| "spec_elems (SpecSeq ps) = ps"
| "spec_elems _ = []"

fun elem_str :: "path_elem \<Rightarrow> string" where
  "elem_str (PStr s) = s"
| "elem_str PNonStr = []"

section \<open>The operations\<close>

definition check_traversal_path_type :: "path_spec \<Rightarrow> error + unit" where
  "check_traversal_path_type tp =
     (if \<not> (spec_truthy tp \<and> \<not> is_str_spec tp \<and> is_Sequence tp
             \<and> list_all is_str_elem (spec_elems tp))
      then Inl TypeError_traversal_paths
      else Inr ())"

text \<open>
  \<open>_traverse\<close>, with the loop \<open>for d in docs: yield from _traverse(d.matches, ...)\<close> as
  \<open>traverse_each\<close> over the sub-collections of the documents: an exception ends the loop,
  after what was yielded before it.
\<close>

fun priv_traverse :: "store \<Rightarrow> cref \<Rightarrow> string \<Rightarrow> (document \<Rightarrow> bool) option
                        \<Rightarrow> gen_result \<times> store"
  and traverse_each :: "store \<Rightarrow> cref list \<Rightarrow> string \<Rightarrow> (document \<Rightarrow> bool) option
                        \<Rightarrow> gen_result \<times> store" where
  "priv_traverse st docs [] filter_fn =
     (case filter_fn of
        None \<Rightarrow> (([docs], None), st)
      | Some f \<Rightarrow> (case DocumentArray st (filter f (coll st docs)) of
                    (r, st') \<Rightarrow> (([r], None), st')))"
| "priv_traverse st docs (loc # rest) filter_fn =
     (if loc = CHR ''r'' then priv_traverse st docs rest filter_fn
      else if loc = CHR ''m'' then
        traverse_each st (map matches (coll st docs)) rest filter_fn
      else if loc = CHR ''c'' then
        traverse_each st (map chunks (coll st docs)) rest filter_fn
      else (([], Some (ValueError_path loc)), st))"
| "traverse_each st [] rest filter_fn = (([], None), st)"
| "traverse_each st (sub # subs) rest filter_fn =
     (case priv_traverse st sub rest filter_fn of
        ((ys, Some e), st') \<Rightarrow> ((ys, Some e), st')
      | ((ys, None), st') \<Rightarrow>
          (case traverse_each st' subs rest filter_fn of
             ((zs, err), st'') \<Rightarrow> ((ys @ zs, err), st'')))"

text \<open>The loop \<open>for p in traversal_paths: yield from self._traverse(self, p, ...)\<close>.\<close>

fun traverse_paths :: "store \<Rightarrow> cref \<Rightarrow> string list \<Rightarrow> (document \<Rightarrow> bool) option
                         \<Rightarrow> gen_result \<times> store" where
  "traverse_paths st self [] filter_fn = (([], None), st)"
| "traverse_paths st self (p # ps) filter_fn =
     (case priv_traverse st self p filter_fn of
        ((ys, Some e), st') \<Rightarrow> ((ys, Some e), st')
      | ((ys, None), st') \<Rightarrow>
          (case traverse_paths st' self ps filter_fn of
             ((zs, err), st'') \<Rightarrow> ((ys @ zs, err), st'')))"

definition traverse :: "store \<Rightarrow> cref \<Rightarrow> path_spec \<Rightarrow> (document \<Rightarrow> bool) option
                          \<Rightarrow> gen_result \<times> store" where
  "traverse st self traversal_paths filter_fn =
     (case check_traversal_path_type traversal_paths of
        Inl e \<Rightarrow> (([], Some e), st)
      | Inr _ \<Rightarrow>
          traverse_paths st self (map elem_str (spec_elems traversal_paths)) filter_fn)"

text \<open>
  Modelled from the spec: \<open>_flatten\<close> is abstract in \<open>TraversableSequence\<close>; the concrete
  collection class implements it outside the source file. It consumes the sequence of
  collections it is given (an exception of that sequence propagates) and builds one new
  flat collection of their documents in encounter order, duplicates kept.
\<close>

definition priv_flatten :: "store \<Rightarrow> gen_result \<Rightarrow> (error + cref) \<times> store" where
  "priv_flatten st sequence =
     (case sequence of
        (leaves, Some e) \<Rightarrow> (Inl e, st)
      | (leaves, None) \<Rightarrow>
          (case DocumentArray st (concat (map (coll st) leaves)) of
             (r, st') \<Rightarrow> (Inr r, st')))"

text \<open>
  The loop of \<open>traverse_flat_per_path\<close>:
  \<open>for p in traversal_paths: yield self._flatten(self._traverse(self, p, ...))\<close>.
\<close>

fun flat_paths :: "store \<Rightarrow> cref \<Rightarrow> string list \<Rightarrow> (document \<Rightarrow> bool) option
                     \<Rightarrow> gen_result \<times> store" where
  "flat_paths st self [] filter_fn = (([], None), st)"
| "flat_paths st self (p # ps) filter_fn =
     (case priv_traverse st self p filter_fn of
        (leaves, st1) \<Rightarrow>
          (case priv_flatten st1 leaves of
             (Inl e, st2) \<Rightarrow> (([], Some e), st2)
           | (Inr r, st2) \<Rightarrow>
               (case flat_paths st2 self ps filter_fn of
                  ((zs, err), st3) \<Rightarrow> ((r # zs, err), st3))))"

definition traverse_flat_per_path :: "store \<Rightarrow> cref \<Rightarrow> path_spec
                          \<Rightarrow> (document \<Rightarrow> bool) option \<Rightarrow> gen_result \<times> store" where
  "traverse_flat_per_path st self traversal_paths filter_fn =
     (case check_traversal_path_type traversal_paths of
        Inl e \<Rightarrow> (([], Some e), st)
      | Inr _ \<Rightarrow>
          flat_paths st self (map elem_str (spec_elems traversal_paths)) filter_fn)"

definition traverse_flat :: "store \<Rightarrow> cref \<Rightarrow> path_spec \<Rightarrow> (document \<Rightarrow> bool) option
                               \<Rightarrow> (error + cref) \<times> store" where
  "traverse_flat st self traversal_paths filter_fn =
     (case check_traversal_path_type traversal_paths of
        Inl e \<Rightarrow> (Inl e, st)
      | Inr _ \<Rightarrow>
          (if length (spec_elems traversal_paths) = 1
              \<and> hd (spec_elems traversal_paths) = PStr ''r''
              \<and> filter_fn = None
           then (Inr self, st)
           else (case traverse st self traversal_paths filter_fn of
                   (leaves, st1) \<Rightarrow> priv_flatten st1 leaves)))"

subsection \<open>\<open>batch\<close>\<close>

text \<open>
  Modelled from the spec: \<open>np.random.shuffle(ix)\<close> draws from the global random source of
  numpy, outside the source file. The random source is the permutation \<open>perm\<close> of the
  positions that one call of it applies to the index array.
\<close>

definition np_random_shuffle :: "nat list \<Rightarrow> nat list \<Rightarrow> nat list" where
  "np_random_shuffle perm ix = map (\<lambda>j. ix ! j) perm"

text \<open>The slice \<open>xs[lo:hi]\<close> for \<open>0 \<le> lo\<close>, \<open>0 \<le> hi\<close>, clipped as Python clips it.\<close>

definition slice :: "'a list \<Rightarrow> nat \<Rightarrow> nat \<Rightarrow> 'a list" where
  "slice xs lo hi = take (hi - lo) (drop lo xs)"

text \<open>
  The loop \<open>for i in range(n_batches): yield DocumentArray(docs[i * batch_size :
  (i + 1) * batch_size])\<close>, over the values of \<open>i\<close> still to come.
\<close>

fun batch_loop :: "store \<Rightarrow> cref \<Rightarrow> nat \<Rightarrow> nat list \<Rightarrow> cref list \<times> store" where
  "batch_loop st docs batch_size [] = ([], st)"
| "batch_loop st docs batch_size (i # rest) =
     (case DocumentArray st
             (slice (coll st docs) (i * batch_size) ((i + 1) * batch_size)) of
        (r, st1) \<Rightarrow>
          (case batch_loop st1 docs batch_size rest of
             (rs, st2) \<Rightarrow> (r # rs, st2)))"

text \<open>\<open>getattr(d, require_attr) is not None\<close> for the two array-valued attributes.\<close>

definition array_attr_is_not_None :: "document \<Rightarrow> string \<Rightarrow> bool" where
  "array_attr_is_not_None d a =
     (if a = ''embedding'' then embedding d \<noteq> None else blob d \<noteq> None)"

text \<open>
  Modelled from the spec: attribute lookup belongs to \<open>Document\<close>, which is not part of
  the source file; the design gives it as \<open>get_attribute(name)\<close>, a value or nothing.
  \<open>getattr(d, require_attr)\<close> for every name other than the two array-valued ones reads
  \<open>attrs\<close>, and a name that is not there reads as \<open>None\<close>.
\<close>

definition getattr :: "document \<Rightarrow> string \<Rightarrow> pyval" where
  "getattr d a = (case map_of (attrs d) a of None \<Rightarrow> VNone | Some v \<Rightarrow> v)"

text \<open>
  The legacy loop \<open>for d in docs: ...\<close> over the documents still to come, \<open>b\<close> being the
  running \<open>_batch\<close>. It returns the batches yielded inside the loop, the running batch
  at the end of the loop and the store.
\<close>

fun legacy_loop :: "store \<Rightarrow> cref \<Rightarrow> document list \<Rightarrow> string option \<Rightarrow> nat
                      \<Rightarrow> cref list \<times> cref \<times> store" where
  "legacy_loop st b [] require_attr batch_size = ([], b, st)"
| "legacy_loop st b (d # ds) require_attr batch_size =
     (let st1 =
        (if require_attr \<in> {Some ''embedding'', Some ''blob''} then
           (if array_attr_is_not_None d (the require_attr) then append_doc st b d else st)
         else if require_attr \<noteq> None then
           (if truthy (getattr d (the require_attr)) then append_doc st b d else st)
         else append_doc st b d)
      in if length (coll st1 b) = batch_size then
           (case DocumentArray st1 [] of
              (b', st2) \<Rightarrow>
                (case legacy_loop st2 b' ds require_attr batch_size of
                   (ys, bf, st3) \<Rightarrow> (b # ys, bf, st3)))
         else legacy_loop st1 b ds require_attr batch_size)"

text \<open>
  The first lines of \<open>batch\<close>: the collection \<open>docs\<close> to slice, \<open>self\<close> or what
  \<open>traverse_flat\<close> returns for a truthy \<open>traversal_paths\<close>.
\<close>

definition batch_docs :: "store \<Rightarrow> cref \<Rightarrow> path_spec \<Rightarrow> (error + cref) \<times> store" where
  "batch_docs st self traversal_paths =
     (if spec_truthy traversal_paths then
        (case check_traversal_path_type traversal_paths of
           Inl e \<Rightarrow> (Inl e, st)
         | Inr _ \<Rightarrow> traverse_flat st self traversal_paths None)
      else (Inr self, st))"

text \<open>
  \<open>int(np.ceil(N / batch_size))\<close> for a length \<open>N\<close> and a positive \<open>batch_size\<close>. Python
  divides the two integers in double precision, correctly rounded. A quotient of at most
  \<open>2^-1075\<close> becomes \<open>0.0\<close>, so that no batch is counted; every other quotient below 1
  becomes a positive double of at most 1, with ceiling 1; from 1 on, the ceiling of the
  double is the ceiling of the exact quotient for every length below \<open>2^53\<close>, and the
  exact ceiling is what the model takes.
\<close>

definition ceil_quotient :: "nat \<Rightarrow> int \<Rightarrow> nat" where
  "ceil_quotient N batch_size =
     (if real N / real_of_int batch_size \<le> 1 / 2 ^ 1075 then 0
      else nat \<lceil>real N / real_of_int batch_size\<rceil>)"

text \<open>
  \<open>batch\<close>. The two deprecation warnings are advisory and leave no trace in the result;
  they are not part of the model.
\<close>

definition batch :: "store \<Rightarrow> cref \<Rightarrow> int \<Rightarrow> path_spec \<Rightarrow> string option \<Rightarrow> bool
                       \<Rightarrow> nat list \<Rightarrow> gen_result \<times> store" where
  "batch st self batch_size traversal_paths require_attr shuffle perm =
     (if \<not> batch_size > 0 then (([], Some ValueError_batch_size), st)
      else
        (case batch_docs st self traversal_paths of
           (Inl e, st0) \<Rightarrow> (([], Some e), st0)
         | (Inr docs, st0) \<Rightarrow>
             (if require_attr = None \<or> require_attr = Some [] then
                (let N = length (coll st0 self);
                     ix = [0..<N];
                     n_batches = ceil_quotient N batch_size;
                     ix = (if shuffle then np_random_shuffle perm ix else ix)
                 in (case batch_loop st0 docs (nat batch_size) [0..<n_batches] of
                       (rs, st1) \<Rightarrow> ((rs, None), st1)))
              else
                (case DocumentArray st0 [] of
                   (b, st1) \<Rightarrow>
                     (case legacy_loop st1 b (coll st1 docs) require_attr
                             (nat batch_size) of
                        (ys, bf, st2) \<Rightarrow>
                          (if coll st2 bf \<noteq> [] then ((ys @ [bf], None), st2)
                           else ((ys, None), st2)))))))"

section \<open>Reference definitions\<close>

text \<open>
  The collections a path reaches, as the design describes the descent: \<open>r\<close> stays, \<open>c\<close>
  goes to the children of every document and \<open>m\<close> to its matches, in collection order; no
  store is threaded and nothing is allocated.
\<close>

fun spec_leaves :: "store \<Rightarrow> cref \<Rightarrow> string \<Rightarrow> cref list" where
  "spec_leaves st docs [] = [docs]"
| "spec_leaves st docs (loc # rest) =
     (if loc = CHR ''r'' then spec_leaves st docs rest
      else if loc = CHR ''m'' then
        concat (map (\<lambda>sub. spec_leaves st sub rest) (map matches (coll st docs)))
      else if loc = CHR ''c'' then
        concat (map (\<lambda>sub. spec_leaves st sub rest) (map chunks (coll st docs)))
      else [])"

definition valid_path :: "string \<Rightarrow> bool" where
  "valid_path p = list_all (\<lambda>c. c = CHR ''r'' \<or> c = CHR ''c'' \<or> c = CHR ''m'') p"

text \<open>Cutting a list into consecutive pieces of \<open>n\<close> elements, the last one shorter.\<close>

function spec_chunks :: "nat \<Rightarrow> 'a list \<Rightarrow> 'a list list" where
  "spec_chunks n xs =
     (if n = 0 \<or> xs = [] then [] else take n xs # spec_chunks n (drop n xs))"
  by pat_completeness auto
termination
  by (relation "measure (\<lambda>(n, xs). length xs)") auto

text \<open>
  The legacy filter in the design's words: presence for the two array-valued attributes,
  truthiness for every other name.
\<close>

definition spec_passes :: "string \<Rightarrow> document \<Rightarrow> bool" where
  "spec_passes a d =
     (if a = ''embedding'' then embedding d \<noteq> None
      else if a = ''blob'' then blob d \<noteq> None
      else truthy (getattr d a))"

section \<open>Example trees\<close>

definition mk_doc :: "nat \<Rightarrow> cref \<Rightarrow> cref \<Rightarrow> document" where
  "mk_doc i c m =
     \<lparr>doc_id = i, chunks = c, matches = m, embedding = None, blob = None, attrs = []\<rparr>"

text \<open>
  Document \<open>A\<close> has the children \<open>B\<close> and \<open>C\<close>, and \<open>B\<close> has the child \<open>D\<close>. The root
  collection \<open>[A]\<close> is at address 0, the children of \<open>A\<close>, \<open>B\<close>, \<open>C\<close> at 1, 2, 3, the
  children of \<open>D\<close> at 7, and the four (empty) match collections at 4, 5, 6, 8.
\<close>

definition doc_A :: document where "doc_A = mk_doc 0 1 4"
definition doc_B :: document where "doc_B = mk_doc 1 2 5"
definition doc_C :: document where "doc_C = mk_doc 2 3 6"
definition doc_D :: document where "doc_D = mk_doc 3 7 8"

definition tree_store :: store where
  "tree_store = [[doc_A], [doc_B, doc_C], [doc_D], [], [], [], [], [], []]"

text \<open>
  Five documents without children or matches; the first and the fourth have no embedding,
  the second has an empty one. The root collection is at address 0.
\<close>

definition emb_doc :: "nat \<Rightarrow> ndarray option \<Rightarrow> document" where
  "emb_doc i e = (mk_doc i (2 * i + 1) (2 * i + 2))\<lparr>embedding := e\<rparr>"

definition emb_store :: store where
  "emb_store =
     [[emb_doc 0 None, emb_doc 1 (Some []), emb_doc 2 (Some [1, 2]), emb_doc 3 None,
       emb_doc 4 (Some [3])],
      [], [], [], [], [], [], [], [], [], []]"

lemmas example_defs =
  tree_store_def doc_A_def doc_B_def doc_C_def doc_D_def mk_doc_def emb_store_def
  emb_doc_def

section \<open>Store and traversal lemmas\<close>

lemma coll_append_old: "r < length st \<Longrightarrow> coll (st @ ext) r = coll st r"
  by (simp add: coll_def nth_append)

lemma coll_append_new: "coll (st @ [xs]) (length st) = xs"
  by (simp add: coll_def)

lemma wf_sub:
  "wf_store st \<Longrightarrow> d \<in> set (coll st docs) \<Longrightarrow> chunks d < length st \<and> matches d < length st"
  by (auto simp: wf_store_def coll_def list_all_iff split: if_splits)

lemma wf_ext:
  assumes "wf_store st"
    and "\<forall>xs \<in> set ext. \<forall>d \<in> set xs. chunks d < length st \<and> matches d < length st"
  shows "wf_store (st @ ext)"
  using assms unfolding wf_store_def list_all_iff by fastforce

lemma wf_ext_filter:
  assumes "wf_store st"
  shows "wf_store (st @ map (\<lambda>l. filter f (coll st l)) L)"
proof (rule wf_ext[OF assms], intro ballI)
  fix xs d assume "xs \<in> set (map (\<lambda>l. filter f (coll st l)) L)" "d \<in> set xs"
  then obtain l where "d \<in> set (coll st l)" by auto
  then show "chunks d < length st \<and> matches d < length st"
    using wf_sub[OF assms] by blast
qed

lemma leaves_allocated:
  "wf_store st \<Longrightarrow> docs < length st \<Longrightarrow> \<forall>l \<in> set (spec_leaves st docs p). l < length st"
proof (induction p arbitrary: docs)
  case Nil
  then show ?case by simp
next
  case (Cons loc rest)
  then show ?case using wf_sub[of st _ docs] by (auto split: if_splits)
qed

lemma leaves_ext:
  "wf_store st \<Longrightarrow> docs < length st \<Longrightarrow> spec_leaves (st @ ext) docs p = spec_leaves st docs p"
proof (induction p arbitrary: docs)
  case Nil
  then show ?case by simp
next
  case (Cons loc rest)
  have sub: "\<And>d. d \<in> set (coll st docs) \<Longrightarrow> chunks d < length st \<and> matches d < length st"
    using wf_sub[OF Cons.prems(1)] by blast
  have c: "coll (st @ ext) docs = coll st docs"
    using Cons.prems(2) by (rule coll_append_old)
  have m: "map (\<lambda>sub. spec_leaves (st @ ext) sub rest) (map matches (coll st docs))
         = map (\<lambda>sub. spec_leaves st sub rest) (map matches (coll st docs))"
    using Cons.IH[OF Cons.prems(1)] sub by simp
  have k: "map (\<lambda>sub. spec_leaves (st @ ext) sub rest) (map chunks (coll st docs))
         = map (\<lambda>sub. spec_leaves st sub rest) (map chunks (coll st docs))"
    using Cons.IH[OF Cons.prems(1)] sub by simp
  show ?case
    using Cons.IH[OF Cons.prems] by (simp add: c m k del: map_map)
qed

lemma traverse_None:
  "filter_fn = None \<Longrightarrow> valid_path p \<Longrightarrow>
     priv_traverse st docs p filter_fn = ((spec_leaves st docs p, None), st)"
  "filter_fn = None \<Longrightarrow> valid_path p \<Longrightarrow>
     traverse_each st subs p filter_fn
       = ((concat (map (\<lambda>sub. spec_leaves st sub p) subs), None), st)"
   apply (induction st docs p filter_fn and st subs p filter_fn rule: priv_traverse_traverse_each.induct)
  apply (auto simp: valid_path_def)
  done

lemma traverse_None_store:
  "filter_fn = None \<Longrightarrow> snd (priv_traverse st docs p filter_fn) = st"
  "filter_fn = None \<Longrightarrow> snd (traverse_each st subs p filter_fn) = st"
   apply (induction st docs p filter_fn and st subs p filter_fn rule: priv_traverse_traverse_each.induct)
  apply (auto split: prod.splits option.splits)
  done

lemma traverse_Some_fresh:
  "filter_fn = Some f \<Longrightarrow> priv_traverse st docs p filter_fn = ((ys, err), st') \<Longrightarrow>
     \<exists>ext. st' = st @ ext \<and> ys = [length st ..< length st + length ext]"
  "filter_fn = Some f \<Longrightarrow> traverse_each st subs p filter_fn = ((ys, err), st') \<Longrightarrow>
     \<exists>ext. st' = st @ ext \<and> ys = [length st ..< length st + length ext]"
proof (induction st docs p filter_fn and st subs p filter_fn arbitrary: ys err st' and ys err st' rule: priv_traverse_traverse_each.induct)
  case (1 st docs filter_fn)
  then show ?case by (auto simp: DocumentArray_def)
next
  case (2 st docs loc rest filter_fn)
  then show ?case by (auto split: if_splits)
next
  case (3 st rest filter_fn)
  then show ?case by auto
next
  case (4 st sub subs rest filter_fn)
  obtain ys1 e1 st1 where r1: "priv_traverse st sub rest filter_fn = ((ys1, e1), st1)"
    by (metis prod.exhaust)
  from "4.IH"(1)[OF "4.prems"(1) r1] obtain ext1 where
    e1: "st1 = st @ ext1" "ys1 = [length st ..< length st + length ext1]" by blast
  show ?case
  proof (cases e1)
    case (Some e)
    with r1 "4.prems"(2) e1 show ?thesis by auto
  next
    case None
    obtain zs e2 st2 where r2: "traverse_each st1 subs rest filter_fn = ((zs, e2), st2)"
      by (metis prod.exhaust)
    from "4.IH"(2)[OF r1[symmetric] refl None "4.prems"(1) r2] obtain ext2 where
      e2: "st2 = st1 @ ext2" "zs = [length st1 ..< length st1 + length ext2]" by blast
    have "ys = ys1 @ zs" "st' = st2" using r1 r2 None "4.prems"(2) by auto
    moreover have "[length st ..< length st + length ext1 + length ext2]
        = [length st ..< length st + length ext1]
          @ [length st + length ext1 ..< length st + length ext1 + length ext2]"
      by (rule upt_add_eq_append) simp
    then have "ys1 @ zs = [length st ..< length st + length (ext1 @ ext2)]"
      using e1 e2 by (simp add: add.assoc)
    ultimately show ?thesis using e1 e2 by (intro exI[of _ "ext1 @ ext2"]) simp
  qed
qed

lemma leaves_each_allocated:
  assumes "wf_store st" "\<forall>s \<in> set subs. s < length st"
  shows "\<forall>l \<in> set (concat (map (\<lambda>sub. spec_leaves st sub p) subs)). l < length st"
  using assms leaves_allocated by fastforce

lemma leaves_each_ext:
  assumes "wf_store st" "\<forall>s \<in> set subs. s < length st"
  shows "map (\<lambda>sub. spec_leaves (st @ ext) sub p) subs = map (\<lambda>sub. spec_leaves st sub p) subs"
  using assms leaves_ext by simp

lemma filter_coll_ext:
  assumes "\<forall>l \<in> set L. l < length st"
  shows "map (\<lambda>l. filter f (coll (st @ ext) l)) L = map (\<lambda>l. filter f (coll st l)) L"
  using assms coll_append_old by simp

lemma upt_split3: "[a ..< a + (m + n)] = [a ..< a + m] @ [a + m ..< a + (m + n)]" for a m n :: nat
  using upt_add_eq_append[of a "a + m" n] by (simp add: add.assoc)

lemma traverse_Some:
  "filter_fn = Some f \<Longrightarrow> wf_store st \<Longrightarrow> docs < length st \<Longrightarrow> valid_path p \<Longrightarrow>
     priv_traverse st docs p filter_fn
       = (([length st ..< length st + length (spec_leaves st docs p)], None),
          st @ map (\<lambda>l. filter f (coll st l)) (spec_leaves st docs p))"
  "filter_fn = Some f \<Longrightarrow> wf_store st \<Longrightarrow> \<forall>s \<in> set subs. s < length st \<Longrightarrow> valid_path p \<Longrightarrow>
     traverse_each st subs p filter_fn
       = (([length st ..< length st
              + length (concat (map (\<lambda>sub. spec_leaves st sub p) subs))], None),
          st @ map (\<lambda>l. filter f (coll st l))
                 (concat (map (\<lambda>sub. spec_leaves st sub p) subs)))"
proof (induction st docs p filter_fn and st subs p filter_fn
       rule: priv_traverse_traverse_each.induct)
  case (1 st docs filter_fn)
  then show ?case by (simp add: DocumentArray_def)
next
  case (2 st docs loc rest filter_fn)
  have v: "valid_path rest" and loc: "loc = CHR ''r'' \<or> loc = CHR ''c'' \<or> loc = CHR ''m''"
    using "2.prems"(4) by (simp_all add: valid_path_def)
  have subs: "\<forall>s \<in> set (map matches (coll st docs)). s < length st"
             "\<forall>s \<in> set (map chunks (coll st docs)). s < length st"
    using wf_sub[OF "2.prems"(2)] by auto
  consider (r) "loc = CHR ''r''" | (m) "loc = CHR ''m''" | (c) "loc = CHR ''c''"
    using loc by blast
  then show ?case
  proof cases
    case r
    then show ?thesis using "2.IH"(1)[OF r "2.prems"(1,2,3) v] by simp
  next
    case m
    then show ?thesis using "2.IH"(2)[OF _ m "2.prems"(1,2) subs(1) v] by simp
  next
    case c
    then show ?thesis using "2.IH"(3)[OF _ _ c "2.prems"(1,2) subs(2) v] by simp
  qed
next
  case (3 st rest filter_fn)
  then show ?case by simp
next
  case (4 st sub subs rest filter_fn)
  define L1 where "L1 = spec_leaves st sub rest"
  define L2 where "L2 = concat (map (\<lambda>sub. spec_leaves st sub rest) subs)"
  define st1 where "st1 = st @ map (\<lambda>l. filter f (coll st l)) L1"
  have sub: "sub < length st" and subs: "\<forall>s \<in> set subs. s < length st"
    using "4.prems"(3) by simp_all
  have r1: "priv_traverse st sub rest filter_fn
       = (([length st ..< length st + length L1], None), st1)"
    using "4.IH"(1)[OF "4.prems"(1,2) sub "4.prems"(4)] by (simp add: L1_def st1_def)
  have wf1: "wf_store st1" unfolding st1_def by (rule wf_ext_filter[OF "4.prems"(2)])
  have subs1: "\<forall>s \<in> set subs. s < length st1" using subs by (auto simp: st1_def)
  have L2': "concat (map (\<lambda>sub. spec_leaves st1 sub rest) subs) = L2"
    unfolding st1_def L2_def by (simp only: leaves_each_ext[OF "4.prems"(2) subs])
  have L2a: "\<forall>l \<in> set L2. l < length st"
    unfolding L2_def by (rule leaves_each_allocated[OF "4.prems"(2) subs])
  have f2: "map (\<lambda>l. filter f (coll st1 l)) L2 = map (\<lambda>l. filter f (coll st l)) L2"
    unfolding st1_def by (rule filter_coll_ext[OF L2a])
  have r2: "traverse_each st1 subs rest filter_fn
       = (([length st1 ..< length st1 + length L2], None),
          st1 @ map (\<lambda>l. filter f (coll st l)) L2)"
    using "4.IH"(2)[OF r1[symmetric] refl refl "4.prems"(1) wf1 subs1 "4.prems"(4)]
    by (simp only: L2' f2)
  have len1: "length st1 = length st + length L1" by (simp add: st1_def)
  have leaves: "concat (map (\<lambda>sub. spec_leaves st sub rest) (sub # subs)) = L1 @ L2"
    by (simp add: L1_def L2_def)
  show ?case
    unfolding leaves traverse_each.simps r1 prod.case option.case r2
    by (simp add: len1 st1_def upt_split3 add.assoc)
qed

section \<open>The path check and the example trees\<close>

lemma check_ok_iff:
  "check_traversal_path_type tp = Inr () \<longleftrightarrow> (\<exists>ps. ps \<noteq> [] \<and> tp = SpecSeq (map PStr ps))"
proof
  assume ok: "check_traversal_path_type tp = Inr ()"
  then obtain es where tp: "tp = SpecSeq es" and ne: "es \<noteq> []"
    and strs: "list_all is_str_elem es"
    by (cases tp) (auto simp: check_traversal_path_type_def split: if_splits)
  have "es = map PStr (map elem_str es)" using strs
    by (induction es) (auto elim: is_str_elem.elims)
  with tp ne show "\<exists>ps. ps \<noteq> [] \<and> tp = SpecSeq (map PStr ps)"
    by (metis map_is_Nil_conv)
next
  assume "\<exists>ps. ps \<noteq> [] \<and> tp = SpecSeq (map PStr ps)"
  then show "check_traversal_path_type tp = Inr ()"
    by (auto simp: check_traversal_path_type_def list_all_iff)
qed

lemma check_fail:
  "check_traversal_path_type tp \<noteq> Inr () \<Longrightarrow>
     check_traversal_path_type tp = Inl TypeError_traversal_paths"
  by (simp add: check_traversal_path_type_def split: if_splits)

lemma check_strs: "ps \<noteq> [] \<Longrightarrow> check_traversal_path_type (SpecSeq (map PStr ps)) = Inr ()"
  using check_ok_iff by blast

lemma elem_str_PStr: "map elem_str (map PStr ps) = ps"
  by (induction ps) auto

lemma tree_store_length: "length tree_store = 9"
  by (simp add: tree_store_def)

lemma tree_store_coll:
  "coll tree_store 0 = [doc_A]" "coll tree_store 1 = [doc_B, doc_C]"
  "coll tree_store (Suc 0) = [doc_B, doc_C]"
  "coll tree_store 2 = [doc_D]" "coll tree_store 3 = []" "coll tree_store 4 = []"
  "coll tree_store 5 = []" "coll tree_store 6 = []" "coll tree_store 7 = []"
  "coll tree_store 8 = []"
  by (simp_all add: tree_store_def coll_def)

lemma tree_docs:
  "chunks doc_A = 1" "chunks doc_B = 2" "chunks doc_C = 3" "chunks doc_D = 7"
  "matches doc_A = 4" "matches doc_B = 5" "matches doc_C = 6" "matches doc_D = 8"
  by (simp_all add: doc_A_def doc_B_def doc_C_def doc_D_def mk_doc_def)

lemma coll_new_range:
  "map (coll (st @ ext)) [length st ..< length st + length ext] = ext"
  by (auto intro!: nth_equalityI simp: coll_def nth_append)

lemma fresh_range: "list_all (\<lambda>r. \<not> allocated st r) [length st ..< n]"
  by (simp add: list_all_iff allocated_def)

lemma emb_store_length: "length emb_store = 11"
  by (simp add: emb_store_def)

lemma emb_store_coll:
  "coll emb_store 0 = [emb_doc 0 None, emb_doc 1 (Some []), emb_doc 2 (Some [1, 2]),
     emb_doc 3 None, emb_doc 4 (Some [3])]"
  by (simp add: emb_store_def coll_def)

lemma emb_doc_sel:
  "embedding (emb_doc i e) = e" "blob (emb_doc i e) = None" "attrs (emb_doc i e) = []"
  "chunks (emb_doc i e) = 2 * i + 1" "matches (emb_doc i e) = 2 * i + 2"
  by (simp_all add: emb_doc_def mk_doc_def)

lemma wf_emb_store: "wf_store emb_store"
  by (simp add: wf_store_def emb_store_def emb_doc_sel)

lemma wf_tree_store: "wf_store tree_store"
  by (simp add: wf_store_def tree_store_def tree_docs)

section \<open>Several paths, invalid characters\<close>

lemma traverse_paths_None:
  "list_all valid_path ps \<Longrightarrow>
     traverse_paths st self ps None = ((concat (map (spec_leaves st self) ps), None), st)"
  by (induction ps) (simp_all add: traverse_None)

lemma traverse_paths_Some:
  "wf_store st \<Longrightarrow> self < length st \<Longrightarrow> list_all valid_path ps \<Longrightarrow>
     traverse_paths st self ps (Some f)
       = (([length st ..< length st + length (concat (map (spec_leaves st self) ps))], None),
          st @ map (\<lambda>l. filter f (coll st l)) (concat (map (spec_leaves st self) ps)))"
proof (induction ps arbitrary: st)
  case Nil
  then show ?case by simp
next
  case (Cons p ps)
  define L1 where "L1 = spec_leaves st self p"
  define L2 where "L2 = concat (map (spec_leaves st self) ps)"
  define st1 where "st1 = st @ map (\<lambda>l. filter f (coll st l)) L1"
  have v: "valid_path p" and vs: "list_all valid_path ps" using Cons.prems(3) by simp_all
  have r1: "priv_traverse st self p (Some f)
       = (([length st ..< length st + length L1], None), st1)"
    using traverse_Some(1)[OF refl Cons.prems(1,2) v, of f] by (simp add: L1_def st1_def)
  have wf1: "wf_store st1" unfolding st1_def by (rule wf_ext_filter[OF Cons.prems(1)])
  have self1: "self < length st1" using Cons.prems(2) by (simp add: st1_def)
  have "map (spec_leaves st1 self) ps = map (spec_leaves st self) ps"
    unfolding st1_def using leaves_ext[OF Cons.prems(1,2)] by simp
  then have L2': "concat (map (spec_leaves st1 self) ps) = L2" by (simp only: L2_def)
  have L2a: "\<forall>l \<in> set L2. l < length st"
    unfolding L2_def using leaves_allocated[OF Cons.prems(1,2)] by auto
  have f2: "map (\<lambda>l. filter f (coll st1 l)) L2 = map (\<lambda>l. filter f (coll st l)) L2"
    unfolding st1_def by (rule filter_coll_ext[OF L2a])
  have r2: "traverse_paths st1 self ps (Some f)
       = (([length st1 ..< length st1 + length L2], None),
          st1 @ map (\<lambda>l. filter f (coll st l)) L2)"
    using Cons.IH[OF wf1 self1 vs] by (simp only: L2' f2)
  have len1: "length st1 = length st + length L1" by (simp add: st1_def)
  have leaves: "concat (map (spec_leaves st self) (p # ps)) = L1 @ L2"
    by (simp add: L1_def L2_def)
  show ?case
    unfolding leaves traverse_paths.simps r1 prod.case option.case r2
    by (simp add: len1 st1_def upt_split3 add.assoc)
qed

lemma traverse_valid_no_error:
  "valid_path p \<Longrightarrow> snd (fst (priv_traverse st docs p filter_fn)) = None"
  "valid_path p \<Longrightarrow> snd (fst (traverse_each st subs p filter_fn)) = None"
proof (induction st docs p filter_fn and st subs p filter_fn
       rule: priv_traverse_traverse_each.induct)
  case (1 st docs filter_fn)
  then show ?case by (simp add: DocumentArray_def split: option.splits)
next
  case (2 st docs loc rest filter_fn)
  then show ?case by (auto simp: valid_path_def)
next
  case (3 st rest filter_fn)
  then show ?case by simp
next
  case (4 st sub subs rest filter_fn)
  obtain ys1 e1 st1 where r1: "priv_traverse st sub rest filter_fn = ((ys1, e1), st1)"
    by (metis prod.exhaust)
  have e1: "e1 = None" using "4.IH"(1)[OF "4.prems"] r1 by simp
  obtain zs e2 st2 where r2: "traverse_each st1 subs rest filter_fn = ((zs, e2), st2)"
    by (metis prod.exhaust)
  have "e2 = None" using "4.IH"(2)[OF r1[symmetric] refl e1 "4.prems"] r2 by simp
  then show ?case using r1 r2 e1 by simp
qed

lemma traverse_each_invalid:
  assumes "\<And>docs. priv_traverse st docs q f
             = (([], if spec_leaves st docs pre = [] then None else Some e), st)"
  shows "traverse_each st subs q f
           = (([], if concat (map (\<lambda>sub. spec_leaves st sub pre) subs) = []
                   then None else Some e), st)"
  by (induction subs) (simp_all add: assms)

lemma traverse_invalid:
  assumes "valid_path pre" and "x \<noteq> CHR ''r''" "x \<noteq> CHR ''c''" "x \<noteq> CHR ''m''"
  shows "priv_traverse st docs (pre @ x # post) f
           = (([], if spec_leaves st docs pre = [] then None
                   else Some (ValueError_path x)), st)"
  using assms(1)
proof (induction pre arbitrary: docs)
  case Nil
  then show ?case using assms(2-4) by simp
next
  case (Cons loc rest)
  have v: "valid_path rest" and loc: "loc = CHR ''r'' \<or> loc = CHR ''c'' \<or> loc = CHR ''m''"
    using Cons.prems by (simp_all add: valid_path_def)
  note ih = Cons.IH[OF v]
  show ?case
    using loc by (auto simp: ih traverse_each_invalid[where pre = rest, OF ih])
qed

lemma traverse_paths_invalid:
  assumes "list_all valid_path ps" "valid_path pre"
    and "x \<noteq> CHR ''r''" "x \<noteq> CHR ''c''" "x \<noteq> CHR ''m''"
    and "spec_leaves st self pre \<noteq> []"
  shows "traverse_paths st self (ps @ (pre @ x # post) # qs) None
           = ((concat (map (spec_leaves st self) ps), Some (ValueError_path x)), st)"
  using assms(1)
proof (induction ps)
  case Nil
  then show ?case using traverse_invalid[OF assms(2-5), of st self post None] assms(6) by simp
next
  case (Cons p ps)
  then show ?case by (simp add: traverse_None)
qed

lemma traverse_paths_valid_no_error:
  "list_all valid_path ps \<Longrightarrow> snd (fst (traverse_paths st self ps filter_fn)) = None"
proof (induction ps arbitrary: st)
  case Nil
  then show ?case by simp
next
  case (Cons p ps)
  obtain ys1 e1 st1 where r1: "priv_traverse st self p filter_fn = ((ys1, e1), st1)"
    by (metis prod.exhaust)
  have e1: "e1 = None" using traverse_valid_no_error(1)[of p st self filter_fn] Cons.prems r1
    by simp
  obtain zs e2 st2 where r2: "traverse_paths st1 self ps filter_fn = ((zs, e2), st2)"
    by (metis prod.exhaust)
  have "e2 = None" using Cons.IH[of st1] Cons.prems r2 by simp
  then show ?case using r1 r2 e1 by simp
qed

lemma valid_path_examples:
  "valid_path ''c''" "valid_path ''cc''" "valid_path ''r''" "valid_path ''m''" "valid_path []"
  "valid_path ''mm''"
  by (simp_all add: valid_path_def)

lemma tree_leaves:
  "spec_leaves tree_store 0 ''c'' = [1]" "spec_leaves tree_store 0 ''cc'' = [2, 3]"
  "spec_leaves tree_store 0 ''r'' = [0]" "spec_leaves tree_store 0 ''mm'' = []"
  by (simp_all add: tree_store_coll tree_docs)

lemma traverse_paths_append:
  "traverse_paths st self (ps @ qs) f
     = (case traverse_paths st self ps f of
          ((ys, Some e), st') \<Rightarrow> ((ys, Some e), st')
        | ((ys, None), st') \<Rightarrow>
            (case traverse_paths st' self qs f of
               ((zs, err), st'') \<Rightarrow> ((ys @ zs, err), st'')))"
proof (induction ps arbitrary: st)
  case Nil
  then show ?case by (simp split: prod.splits)
next
  case (Cons p ps)
  show ?case
    by (simp add: Cons.IH split: prod.splits option.splits)
qed

lemma traverse_paths_invalid_Some:
  assumes wf: "wf_store st" and al: "self < length st"
    and vs: "list_all valid_path ps" and v: "valid_path pre"
    and x: "x \<noteq> CHR ''r''" "x \<noteq> CHR ''c''" "x \<noteq> CHR ''m''"
    and reach: "spec_leaves st self pre \<noteq> []"
  shows "traverse_paths st self (ps @ (pre @ x # post) # qs) (Some g)
           = (([length st ..< length st + length (concat (map (spec_leaves st self) ps))],
               Some (ValueError_path x)),
              st @ map (\<lambda>l. filter g (coll st l)) (concat (map (spec_leaves st self) ps)))"
proof -
  define L where "L = concat (map (spec_leaves st self) ps)"
  define st1 where "st1 = st @ map (\<lambda>l. filter g (coll st l)) L"
  have r1: "traverse_paths st self ps (Some g)
      = (([length st ..< length st + length L], None), st1)"
    using traverse_paths_Some[OF wf al vs, of g] by (simp add: L_def st1_def)
  have "spec_leaves st1 self pre = spec_leaves st self pre"
    unfolding st1_def by (rule leaves_ext[OF wf al])
  then have reach1: "spec_leaves st1 self pre \<noteq> []" using reach by simp
  have r2: "priv_traverse st1 self (pre @ x # post) (Some g)
      = (([], Some (ValueError_path x)), st1)"
    using traverse_invalid[OF v x, of st1 self post "Some g"] reach1 by simp
  have r3: "traverse_paths st1 self ((pre @ x # post) # qs) (Some g)
      = (([], Some (ValueError_path x)), st1)"
    by (simp add: r2)
  show ?thesis
    unfolding traverse_paths_append r1 prod.case option.case r3 L_def[symmetric]
    by (simp add: st1_def)
qed

section \<open>Chunking lemmas\<close>

lemma slice_take_drop: "slice xs (i * n) ((i + 1) * n) = take n (drop (i * n) xs)"
  by (simp add: slice_def)

lemma spec_chunks_Nil: "spec_chunks n [] = []"
  by simp

lemma spec_chunks_step:
  "0 < n \<Longrightarrow> xs \<noteq> [] \<Longrightarrow> spec_chunks n xs = take n xs # spec_chunks n (drop n xs)"
  by (subst spec_chunks.simps) simp

declare spec_chunks.simps [simp del]

lemma ceil_div_step:
  fixes n len :: nat
  assumes "0 < n" "0 < len"
  shows "(len + n - 1) div n = Suc ((len - n + n - 1) div n)"
proof (cases "n \<le> len")
  case True
  then have a: "len - n + n - 1 = len - 1" by simp
  have e: "len + n - 1 = (len - 1) + n" using assms by simp
  have s: "((len - 1) + n) div n = (len - 1) div n + 1"
    using assms(1) by (intro div_add_self2) simp
  show ?thesis unfolding a e s by simp
next
  case False
  then have a: "len - n + n - 1 = n - 1" by simp
  have "(len + n - 1) div n = 1"
    using False assms by (intro div_nat_eqI) simp_all
  moreover have "(n - 1) div n = 0" using assms by simp
  ultimately show ?thesis unfolding a by simp
qed

lemma slices_spec_chunks:
  "0 < n \<Longrightarrow>
     map (\<lambda>i. take n (drop (i * n) xs)) [0 ..< (length xs + n - 1) div n] = spec_chunks n xs"
proof (induction n xs rule: spec_chunks.induct)
  case (1 n xs)
  show ?case
  proof (cases "xs = []")
    case True
    then show ?thesis using "1.prems" by (simp add: spec_chunks_Nil)
  next
    case False
    then have len: "0 < length xs" by simp
    have k: "(length xs + n - 1) div n = Suc ((length (drop n xs) + n - 1) div n)"
      using ceil_div_step[OF "1.prems" len] by simp
    have ih: "map (\<lambda>i. take n (drop (i * n) (drop n xs)))
                 [0 ..< (length (drop n xs) + n - 1) div n] = spec_chunks n (drop n xs)"
      using "1.IH" False "1.prems" by simp
    have sh: "\<And>i. take n (drop (Suc i * n) xs) = take n (drop (i * n) (drop n xs))"
      by (simp add: add.commute)
    show ?thesis
      unfolding k spec_chunks_step[OF "1.prems" False] ih[symmetric]
      by (simp only: upt_conv_Cons[of 0] map_Suc_upt[symmetric] list.map map_map comp_def sh)
         simp
  qed
qed

lemma spec_chunks_concat: "0 < n \<Longrightarrow> concat (spec_chunks n xs) = xs"
proof (induction n xs rule: spec_chunks.induct)
  case (1 n xs)
  then show ?case by (cases "xs = []") (simp_all add: spec_chunks_Nil spec_chunks_step)
qed

lemma spec_chunks_sizes:
  "0 < n \<Longrightarrow> list_all (\<lambda>c. c \<noteq> [] \<and> length c \<le> n) (spec_chunks n xs)"
proof (induction n xs rule: spec_chunks.induct)
  case (1 n xs)
  then show ?case by (cases "xs = []") (simp_all add: spec_chunks_Nil spec_chunks_step)
qed

lemma spec_chunks_full:
  "0 < n \<Longrightarrow> list_all (\<lambda>c. length c = n) (butlast (spec_chunks n xs))"
proof (induction n xs rule: spec_chunks.induct)
  case (1 n xs)
  show ?case
  proof (cases "xs = []")
    case True
    then show ?thesis by (simp add: spec_chunks_Nil)
  next
    case False
    show ?thesis
    proof (cases "drop n xs = []")
      case True
      then show ?thesis using False "1.prems" by (simp add: spec_chunks_step spec_chunks_Nil)
    next
      case d: False
      then have "n < length xs" by simp
      moreover have "spec_chunks n (drop n xs) \<noteq> []"
        using d "1.prems" by (simp add: spec_chunks_step)
      ultimately show ?thesis
        using "1.IH" False "1.prems" by (simp add: spec_chunks_step[OF "1.prems" False])
    qed
  qed
qed

lemma ceil_div_nat: "0 < b \<Longrightarrow> \<lceil>real N / real b\<rceil> = int ((N + b - 1) div b)"
proof (rule ceiling_unique)
  assume b: "0 < b"
  define q where "q = (N + b - 1) div b"
  have lo: "q * b \<le> N + b - 1" unfolding q_def by simp
  have hi: "N + b - 1 < (q + 1) * b" unfolding q_def
    using b by (metis Suc_eq_plus1 dividend_less_div_times mult.commute mult_Suc add.commute)
  have A: "q * b < N + b" using lo b by linarith
  have B: "N \<le> q * b" using hi b by simp
  have "real (q * b) < real (N + b)" using A by (simp only: of_nat_less_iff)
  then have "(real q - 1) * real b < real N" by (simp add: algebra_simps)
  then show "real_of_int (int ((N + b - 1) div b)) - 1 < real N / real b"
    using b by (simp add: q_def pos_less_divide_eq)
  have "real N \<le> real (q * b)" using B by (simp only: of_nat_le_iff)
  then show "real N / real b \<le> real_of_int (int ((N + b - 1) div b))"
    using b by (simp add: q_def pos_divide_le_eq)
qed

lemma ceil_exact_eq:
  "0 < b \<Longrightarrow> nat \<lceil>real N / real_of_int b\<rceil> = (N + nat b - 1) div nat b"
  using ceil_div_nat[of "nat b" N] by simp

lemma n_batches_eq:
  assumes "0 < b" and "b < 2 ^ 1075"
  shows "ceil_quotient N b = (N + nat b - 1) div nat b"
proof (cases "N = 0")
  case True
  then show ?thesis using assms(1) by (simp add: ceil_quotient_def)
next
  case False
  have "(1::real) / 2 ^ 1075 < 1 / real_of_int b"
    using assms by (simp add: frac_less2)
  also have "\<dots> \<le> real N / real_of_int b"
    using False assms(1) by (simp add: divide_right_mono)
  finally have "\<not> real N / real_of_int b \<le> 1 / 2 ^ 1075" by simp
  then show ?thesis using ceil_exact_eq[OF assms(1)] by (simp add: ceil_quotient_def)
qed

section \<open>Lemmas about the loops of \<open>batch\<close>\<close>

lemma upt_Suc_cons: "[a ..< Suc (a + n)] = a # [Suc a ..< Suc (a + n)]"
  by (rule upt_conv_Cons) simp

lemma batch_loop_fresh:
  "batch_loop st docs bs is = (rs, st') \<Longrightarrow>
     \<exists>ext. st' = st @ ext \<and> rs = [length st ..< length st + length ext]"
proof (induction "is" arbitrary: st rs st')
  case Nil
  then show ?case by simp
next
  case (Cons i "is")
  define x where "x = slice (coll st docs) (i * bs) ((i + 1) * bs)"
  obtain rs2 st2 where r2: "batch_loop (st @ [x]) docs bs is = (rs2, st2)"
    by (metis prod.exhaust)
  from Cons.IH[OF r2] obtain ext2 where
    e2: "st2 = (st @ [x]) @ ext2" "rs2 = [length (st @ [x]) ..< length (st @ [x]) + length ext2]"
    by blast
  have "rs = length st # rs2" "st' = st2"
    using Cons.prems r2 by (simp_all add: DocumentArray_def x_def)
  then show ?case using e2
    by (intro exI[of _ "x # ext2"]) (simp del: upt_Suc add: upt_Suc_cons)
qed

lemma batch_loop_exact:
  "docs < length st \<Longrightarrow>
     batch_loop st docs bs is
       = ([length st ..< length st + length is],
          st @ map (\<lambda>i. take bs (drop (i * bs) (coll st docs))) is)"
proof (induction "is" arbitrary: st)
  case Nil
  then show ?case by simp
next
  case (Cons i "is")
  define x where "x = take bs (drop (i * bs) (coll st docs))"
  have d1: "docs < length (st @ [x])" using Cons.prems by simp
  have c1: "coll (st @ [x]) docs = coll st docs" using Cons.prems by (rule coll_append_old)
  show ?case
    using Cons.IH[OF d1]
    by (simp del: upt_Suc add: DocumentArray_def slice_def x_def[symmetric] c1 upt_Suc_cons)
qed

lemma passes_code:
  "(if Some a \<in> {Some ''embedding'', Some ''blob''} then
      (if array_attr_is_not_None d (the (Some a)) then append_doc st b d else st)
    else if Some a \<noteq> None then
      (if truthy (getattr d (the (Some a))) then append_doc st b d else st)
    else append_doc st b d)
   = (if spec_passes a d then append_doc st b d else st)"
  by (auto simp: spec_passes_def array_attr_is_not_None_def)

lemma append_doc_last: "append_doc (pre @ [acc]) (length pre) d = pre @ [acc @ [d]]"
  by (simp add: append_doc_def)

lemma coll_last: "coll (pre @ [acc]) (length pre) = acc"
  by (simp add: coll_def)

lemma legacy_step:
  "legacy_loop (pre @ [acc]) (length pre) (d # ds) (Some a) bs
     = (if length (if spec_passes a d then acc @ [d] else acc) = bs then
          (case legacy_loop (pre @ [if spec_passes a d then acc @ [d] else acc] @ [[]])
                  (Suc (length pre)) ds (Some a) bs of
             (ys, bf, st3) \<Rightarrow> (length pre # ys, bf, st3))
        else legacy_loop (pre @ [if spec_passes a d then acc @ [d] else acc])
               (length pre) ds (Some a) bs)"
  unfolding legacy_loop.simps passes_code Let_def
  by (simp add: append_doc_last coll_last DocumentArray_def)

lemma slices_short:
  "length F < bs \<Longrightarrow> map (\<lambda>i. take bs (drop (i * bs) F)) [0 ..< Suc (length F div bs)] = [F]"
  by simp

lemma slices_full:
  assumes "length A = bs"
  shows "map (\<lambda>i. take bs (drop (i * bs) (A @ F))) [0 ..< Suc (Suc m)]
           = A # map (\<lambda>i. take bs (drop (i * bs) F)) [0 ..< Suc m]"
proof -
  have sh: "\<And>i. take bs (drop (Suc i * bs) (A @ F)) = take bs (drop (i * bs) F)"
    using assms by simp
  have "map (\<lambda>i. take bs (drop (i * bs) (A @ F))) [0 ..< Suc (Suc m)]
      = take bs (drop (0 * bs) (A @ F))
        # map (\<lambda>i. take bs (drop (Suc i * bs) (A @ F))) [0 ..< Suc m]"
    by (simp only: upt_conv_Cons[of 0 "Suc (Suc m)"] map_Suc_upt[symmetric] list.map map_map
        comp_def zero_less_Suc)
  then show ?thesis unfolding sh using assms by simp
qed

lemma legacy_loop_exact:
  assumes "0 < bs"
  shows "length acc < bs \<Longrightarrow>
     legacy_loop (pre @ [acc]) (length pre) ds (Some a) bs
       = ([length pre ..< length pre + length (acc @ filter (spec_passes a) ds) div bs],
          length pre + length (acc @ filter (spec_passes a) ds) div bs,
          pre @ map (\<lambda>i. take bs (drop (i * bs) (acc @ filter (spec_passes a) ds)))
                  [0 ..< Suc (length (acc @ filter (spec_passes a) ds) div bs)])"
proof (induction ds arbitrary: pre acc)
  case Nil
  then show ?case by simp
next
  case (Cons d ds)
  define acc' where "acc' = (if spec_passes a d then acc @ [d] else acc)"
  define F' where "F' = filter (spec_passes a) ds"
  have F: "acc @ filter (spec_passes a) (d # ds) = acc' @ F'"
    by (simp add: acc'_def F'_def)
  have le: "length acc' \<le> bs" using Cons.prems by (simp add: acc'_def)
  show ?case
  proof (cases "length acc' = bs")
    case True
    have ih: "legacy_loop ((pre @ [acc']) @ [[]]) (length (pre @ [acc'])) ds (Some a) bs
       = ([length (pre @ [acc']) ..< length (pre @ [acc']) + length F' div bs],
          length (pre @ [acc']) + length F' div bs,
          (pre @ [acc']) @ map (\<lambda>i. take bs (drop (i * bs) F')) [0 ..< Suc (length F' div bs)])"
      using Cons.IH[of "[]" "pre @ [acc']"] assms by (simp add: F'_def)
    have m: "length (acc' @ F') div bs = Suc (length F' div bs)"
      using True assms by simp
    show ?thesis
      unfolding F legacy_step acc'_def[symmetric] m slices_full[OF True]
      using True ih by (simp add: upt_conv_Cons)
  next
    case False
    then have lt: "length acc' < bs" using le by simp
    show ?thesis
      unfolding F legacy_step acc'_def[symmetric]
      using False Cons.IH[OF lt, of pre] by (simp add: F'_def)
  qed
qed

section \<open>What every operation does to the store\<close>

lemma priv_traverse_ext:
  assumes "priv_traverse st docs p f = ((ys, err), st')"
  shows "\<exists>ext. st' = st @ ext \<and> (f = None \<longrightarrow> ext = [])
           \<and> (f \<noteq> None \<longrightarrow> ys = [length st ..< length st + length ext])"
proof (cases f)
  case None
  then have "st' = st" using traverse_None_store(1)[of f st docs p] assms by simp
  then show ?thesis using None by simp
next
  case (Some g)
  then show ?thesis using traverse_Some_fresh(1)[OF Some assms] by auto
qed

lemma traverse_paths_ext:
  "traverse_paths st self ps f = ((ys, err), st') \<Longrightarrow>
     \<exists>ext. st' = st @ ext \<and> (f = None \<longrightarrow> ext = [])
           \<and> (f \<noteq> None \<longrightarrow> ys = [length st ..< length st + length ext])"
proof (induction ps arbitrary: st ys err st')
  case Nil
  then show ?case by simp
next
  case (Cons p ps)
  obtain ys1 e1 st1 where r1: "priv_traverse st self p f = ((ys1, e1), st1)"
    by (metis prod.exhaust)
  from priv_traverse_ext[OF r1] obtain ext1 where
    x1: "st1 = st @ ext1" "f = None \<longrightarrow> ext1 = []"
        "f \<noteq> None \<longrightarrow> ys1 = [length st ..< length st + length ext1]" by blast
  show ?case
  proof (cases e1)
    case (Some e)
    then have "ys = ys1" "st' = st1" using Cons.prems r1 by simp_all
    then show ?thesis using x1 by auto
  next
    case None
    obtain zs e2 st2 where r2: "traverse_paths st1 self ps f = ((zs, e2), st2)"
      by (metis prod.exhaust)
    from Cons.IH[OF r2] obtain ext2 where
      x2: "st2 = st1 @ ext2" "f = None \<longrightarrow> ext2 = []"
          "f \<noteq> None \<longrightarrow> zs = [length st1 ..< length st1 + length ext2]" by blast
    have res: "ys = ys1 @ zs" "st' = st2" using Cons.prems r1 r2 None by simp_all
    have "f \<noteq> None \<longrightarrow> ys1 @ zs = [length st ..< length st + length (ext1 @ ext2)]"
      using x1 x2 by (simp add: upt_split3 add.assoc)
    then show ?thesis using res x1 x2 by (intro exI[of _ "ext1 @ ext2"]) simp
  qed
qed

lemma traverse_ext:
  assumes "traverse st self tp f = ((ys, err), st')"
  shows "\<exists>ext. st' = st @ ext \<and> (f = None \<longrightarrow> ext = [])
           \<and> (f \<noteq> None \<longrightarrow> ys = [length st ..< length st + length ext])"
proof (cases "check_traversal_path_type tp")
  case (Inl e)
  then have "ys = []" "st' = st" using assms by (simp_all add: traverse_def)
  then show ?thesis by simp
next
  case (Inr u)
  then have "traverse_paths st self (map elem_str (spec_elems tp)) f = ((ys, err), st')"
    using assms by (simp add: traverse_def)
  then show ?thesis by (rule traverse_paths_ext)
qed

lemma priv_flatten_ext:
  assumes "priv_flatten st sq = (res, st')"
  shows "(\<exists>e. res = Inl e \<and> st' = st) \<or> (\<exists>x. res = Inr (length st) \<and> st' = st @ [x])"
  using assms
  by (cases sq) (auto simp: priv_flatten_def DocumentArray_def split: option.splits)

lemma flat_paths_ext:
  "flat_paths st self ps f = ((ys, err), st') \<Longrightarrow>
     \<exists>ext. st' = st @ ext \<and> list_all (\<lambda>r. length st \<le> r) ys"
proof (induction ps arbitrary: st ys err st')
  case Nil
  then show ?case by simp
next
  case (Cons p ps)
  obtain ys1 e1 st1 where r1: "priv_traverse st self p f = ((ys1, e1), st1)"
    by (metis prod.exhaust)
  from priv_traverse_ext[OF r1] obtain ext1 where x1: "st1 = st @ ext1" by blast
  obtain res st2 where rf: "priv_flatten st1 (ys1, e1) = (res, st2)"
    by (metis prod.exhaust)
  from priv_flatten_ext[OF rf] show ?case
  proof (elim disjE exE conjE)
    fix e assume "res = Inl e" "st2 = st1"
    then have "ys = []" "st' = st1" using Cons.prems r1 rf by simp_all
    then show ?thesis using x1 by simp
  next
    fix x assume r: "res = Inr (length st1)" and s2: "st2 = st1 @ [x]"
    obtain zs e3 st3 where r3: "flat_paths st2 self ps f = ((zs, e3), st3)"
      by (metis prod.exhaust)
    from Cons.IH[OF r3] obtain ext3 where
      x3: "st3 = st2 @ ext3" "list_all (\<lambda>r. length st2 \<le> r) zs" by blast
    have res: "ys = length st1 # zs" "st' = st3" using Cons.prems r1 rf r r3 by simp_all
    have "list_all (\<lambda>r. length st \<le> r) zs"
      using x3(2) x1 s2 by (auto simp: list_all_iff)
    then show ?thesis using res x1 s2 x3(1)
      by (intro exI[of _ "ext1 @ [x] @ ext3"]) simp
  qed
qed

lemma traverse_flat_per_path_ext:
  assumes "traverse_flat_per_path st self tp f = ((ys, err), st')"
  shows "\<exists>ext. st' = st @ ext \<and> list_all (\<lambda>r. length st \<le> r) ys"
proof (cases "check_traversal_path_type tp")
  case (Inl e)
  then have "ys = []" "st' = st" using assms by (simp_all add: traverse_flat_per_path_def)
  then show ?thesis by simp
next
  case (Inr u)
  then have "flat_paths st self (map elem_str (spec_elems tp)) f = ((ys, err), st')"
    using assms by (simp add: traverse_flat_per_path_def)
  then show ?thesis by (rule flat_paths_ext)
qed

lemma traverse_flat_ext:
  assumes "traverse_flat st self tp f = (res, st')"
  shows "(\<exists>e. res = Inl e \<and> (\<exists>ext. st' = st @ ext))
       \<or> (res = Inr self \<and> st' = st \<and> f = None \<and> spec_elems tp = [PStr ''r''])
       \<or> (\<exists>ext x. res = Inr (length st + length ext) \<and> st' = st @ ext @ [x])"
proof (cases "check_traversal_path_type tp")
  case (Inl e)
  then have "res = Inl e" "st' = st" using assms by (simp_all add: traverse_flat_def)
  then show ?thesis by simp
next
  case (Inr u)
  show ?thesis
  proof (cases "length (spec_elems tp) = 1 \<and> hd (spec_elems tp) = PStr ''r'' \<and> f = None")
    case True
    then have "res = Inr self" "st' = st" using assms Inr by (simp_all add: traverse_flat_def)
    moreover have "spec_elems tp = [PStr ''r'']"
      using True by (cases "spec_elems tp") simp_all
    ultimately show ?thesis using True by simp
  next
    case False
    obtain ys e1 st1 where r1: "traverse st self tp f = ((ys, e1), st1)"
      by (metis prod.exhaust)
    from traverse_ext[OF r1] obtain ext1 where x1: "st1 = st @ ext1" by blast
    have rf: "priv_flatten st1 (ys, e1) = (res, st')"
      using assms Inr False r1 by (auto simp: traverse_flat_def)
    from priv_flatten_ext[OF rf] show ?thesis using x1 by auto
  qed
qed

lemma batch_docs_ext:
  assumes "batch_docs st self tp = (res, st0)"
  shows "(\<exists>e. res = Inl e \<and> (\<exists>ext. st0 = st @ ext))
       \<or> (res = Inr self \<and> st0 = st)
       \<or> (\<exists>ext x. res = Inr (length st + length ext) \<and> st0 = st @ ext @ [x])"
proof (cases "spec_truthy tp")
  case False
  then show ?thesis using assms by (simp add: batch_docs_def)
next
  case True
  show ?thesis
  proof (cases "check_traversal_path_type tp")
    case (Inl e)
    then show ?thesis using assms True by (auto simp: batch_docs_def)
  next
    case (Inr u)
    then have "traverse_flat st self tp None = (res, st0)"
      using assms True by (simp add: batch_docs_def)
    from traverse_flat_ext[OF this] show ?thesis by auto
  qed
qed

section \<open>Lemmas about \<open>batch\<close>\<close>

lemma coll_new_prefix:
  "k \<le> length ext \<Longrightarrow> map (coll (st @ ext)) [length st ..< length st + k] = take k ext"
  by (auto intro!: nth_equalityI simp: coll_def nth_append)

lemma ceil_div_cases:
  fixes L b :: nat
  assumes "0 < b"
  shows "(L + b - 1) div b = (if L mod b = 0 then L div b else Suc (L div b))"
proof -
  define q where "q = L div b"
  define r where "r = L mod b"
  have L: "L = b * q + r" by (simp add: q_def r_def)
  have r: "r < b" using assms by (simp add: r_def)
  have s1: "b * Suc q = b * q + b" and s2: "b * Suc (Suc q) = b * q + b + b" by simp_all
  show ?thesis
  proof (cases "r = 0")
    case True
    have "(L + b - 1) div b = q"
    proof (rule div_nat_eqI)
      show "b * q \<le> L + b - 1" using L True assms by linarith
      show "L + b - 1 < b * Suc q" unfolding s1 using L True assms by linarith
    qed
    then show ?thesis using True by (simp add: q_def r_def)
  next
    case False
    have "(L + b - 1) div b = Suc q"
    proof (rule div_nat_eqI)
      show "b * Suc q \<le> L + b - 1" unfolding s1 using L False assms by linarith
      show "L + b - 1 < b * Suc (Suc q)" unfolding s2 using L r assms by linarith
    qed
    then show ?thesis using False by (simp add: q_def r_def)
  qed
qed

lemma last_slice:
  fixes b :: nat
  assumes "0 < b"
  shows "take b (drop (length F div b * b) F) = drop (length F div b * b) F"
    and "drop (length F div b * b) F = [] \<longleftrightarrow> length F mod b = 0"
proof -
  have "length F - length F div b * b = length F mod b"
    by (simp add: minus_div_mult_eq_mod)
  then have len: "length (drop (length F div b * b) F) = length F mod b" by simp
  show "take b (drop (length F div b * b) F) = drop (length F div b * b) F"
    using len assms by simp
  show "drop (length F div b * b) F = [] \<longleftrightarrow> length F mod b = 0"
    using len by (metis length_0_conv)
qed

lemma batch_legacy:
  assumes bs: "0 < batch_size" and a: "a \<noteq> []"
    and docs: "batch_docs st self tp = (Inr docs, st0)" and al: "docs < length st0"
  shows "\<exists>rs st'. batch st self batch_size tp (Some a) shuffle perm = ((rs, None), st')
           \<and> map (coll st') rs
               = spec_chunks (nat batch_size) (filter (spec_passes a) (coll st0 docs))
           \<and> list_all (\<lambda>r. length st0 \<le> r) rs
           \<and> take (length st0) st' = st0"
proof -
  define b where "b = nat batch_size"
  define F where "F = filter (spec_passes a) (coll st0 docs)"
  define m where "m = length F div b"
  define C where "C = map (\<lambda>i. take b (drop (i * b) F)) [0 ..< Suc m]"
  have b: "0 < b" using bs by (simp add: b_def)
  have c1: "coll (st0 @ [[]]) docs = coll st0 docs" using al by (rule coll_append_old)
  have loop: "legacy_loop (st0 @ [[]]) (length st0) (coll st0 docs) (Some a) b
      = ([length st0 ..< length st0 + m], length st0 + m, st0 @ C)"
    using legacy_loop_exact[OF b, of "[]" st0 "coll st0 docs" a] b
    by (simp add: F_def m_def C_def)
  have lenC: "length C = Suc m" by (simp add: C_def)
  have bf: "coll (st0 @ C) (length st0 + m) = drop (m * b) F"
    using last_slice(1)[OF b, of F] by (simp add: coll_def C_def m_def nth_append)
  have n: "(length F + b - 1) div b = (if length F mod b = 0 then m else Suc m)"
    unfolding m_def by (rule ceil_div_cases[OF b])
  have sc: "spec_chunks b F = map (\<lambda>i. take b (drop (i * b) F)) [0 ..< (length F + b - 1) div b]"
    using slices_spec_chunks[OF b, of F] by simp
  have fresh: "\<And>k. list_all (\<lambda>r. length st0 \<le> r) [length st0 ..< length st0 + k]"
    by (simp add: list_all_iff)
  have run: "batch st self batch_size tp (Some a) shuffle perm
      = (if drop (m * b) F \<noteq> [] then (([length st0 ..< length st0 + m] @ [length st0 + m], None), st0 @ C)
         else (([length st0 ..< length st0 + m], None), st0 @ C))"
    using bs a unfolding batch_def docs
    by (simp add: DocumentArray_def c1 b_def[symmetric] loop bf)
  show ?thesis
  proof (cases "length F mod b = 0")
    case True
    then have e: "drop (m * b) F = []" using last_slice(2)[OF b, of F] by (simp add: m_def)
    have "map (coll (st0 @ C)) [length st0 ..< length st0 + m] = take m C"
      by (rule coll_new_prefix) (simp add: lenC)
    also have "take m C = map (\<lambda>i. take b (drop (i * b) F)) [0 ..< m]"
      unfolding C_def by (simp add: take_map del: upt_Suc)
    also have "\<dots> = spec_chunks b F" using sc n True by simp
    finally show ?thesis
      unfolding run using e fresh[of m] by (simp add: F_def b_def)
  next
    case False
    then have e: "drop (m * b) F \<noteq> []" using last_slice(2)[OF b, of F] by (simp add: m_def)
    have r: "[length st0 ..< length st0 + m] @ [length st0 + m]
        = [length st0 ..< length st0 + length C]"
      by (simp add: lenC)
    have "map (coll (st0 @ C)) [length st0 ..< length st0 + length C] = C"
      by (rule coll_new_range)
    moreover have "C = spec_chunks b F" using sc n False by (simp add: C_def)
    ultimately show ?thesis
      unfolding run r using e fresh[of "length C"] by (simp add: F_def b_def)
  qed
qed

lemma batch_default:
  assumes bs: "0 < batch_size" and small: "batch_size < 2 ^ 1075"
    and ra: "require_attr = None \<or> require_attr = Some []"
    and docs: "batch_docs st self tp = (Inr docs, st0)" and al: "docs < length st0"
  shows "batch st self batch_size tp require_attr shuffle perm
      = (([length st0 ..< length st0 + (length (coll st0 self) + nat batch_size - 1) div nat batch_size],
          None),
         st0 @ map (\<lambda>i. take (nat batch_size) (drop (i * nat batch_size) (coll st0 docs)))
                 [0 ..< (length (coll st0 self) + nat batch_size - 1) div nat batch_size])"
  using bs ra unfolding batch_def docs Let_def
  by (simp add: n_batches_eq[OF bs small] batch_loop_exact[OF al])

lemma batch_default_no_paths:
  assumes bs: "0 < batch_size" and small: "batch_size < 2 ^ 1075"
    and ra: "require_attr = None \<or> require_attr = Some []"
    and tp: "\<not> spec_truthy tp" and al: "self < length st"
  shows "\<exists>rs st'. batch st self batch_size tp require_attr shuffle perm = ((rs, None), st')
           \<and> map (coll st') rs = spec_chunks (nat batch_size) (coll st self)
           \<and> list_all (\<lambda>r. \<not> allocated st r) rs
           \<and> take (length st) st' = st"
proof -
  have docs: "batch_docs st self tp = (Inr self, st)" using tp by (simp add: batch_docs_def)
  have b: "0 < nat batch_size" using bs by simp
  define n where "n = (length (coll st self) + nat batch_size - 1) div nat batch_size"
  define C where "C = map (\<lambda>i. take (nat batch_size) (drop (i * nat batch_size) (coll st self)))
                 [0 ..< n]"
  have run: "batch st self batch_size tp require_attr shuffle perm
      = (([length st ..< length st + length C], None), st @ C)"
    using batch_default[OF bs small ra docs al, of shuffle perm] by (simp add: C_def n_def)
  have "C = spec_chunks (nat batch_size) (coll st self)"
    unfolding C_def n_def by (rule slices_spec_chunks[OF b])
  moreover have "map (coll (st @ C)) [length st ..< length st + length C] = C"
    by (rule coll_new_range)
  ultimately show ?thesis unfolding run by (simp add: fresh_range)
qed

section \<open>Collections yielded without a filter; the store after \<open>batch\<close>\<close>

lemma traverse_None_allocated:
  "filter_fn = None \<Longrightarrow> wf_store st \<Longrightarrow> docs < length st \<Longrightarrow>
     list_all (\<lambda>r. r < length st) (fst (fst (priv_traverse st docs p filter_fn)))"
  "filter_fn = None \<Longrightarrow> wf_store st \<Longrightarrow> \<forall>s \<in> set subs. s < length st \<Longrightarrow>
     list_all (\<lambda>r. r < length st) (fst (fst (traverse_each st subs p filter_fn)))"
proof (induction st docs p filter_fn and st subs p filter_fn
       rule: priv_traverse_traverse_each.induct)
  case (1 st docs filter_fn)
  then show ?case by simp
next
  case (2 st docs loc rest filter_fn)
  have subs: "\<forall>s \<in> set (map matches (coll st docs)). s < length st"
             "\<forall>s \<in> set (map chunks (coll st docs)). s < length st"
    using wf_sub[OF "2.prems"(2)] by auto
  show ?case
  proof (cases "loc = CHR ''r''")
    case True
    then show ?thesis using "2.IH"(1)[OF True "2.prems"] by simp
  next
    case nr: False
    show ?thesis
    proof (cases "loc = CHR ''m''")
      case True
      then show ?thesis using "2.IH"(2)[OF nr True "2.prems"(1,2) subs(1)] nr by simp
    next
      case nm: False
      show ?thesis
      proof (cases "loc = CHR ''c''")
        case True
        then show ?thesis using "2.IH"(3)[OF nr nm True "2.prems"(1,2) subs(2)] nr nm by simp
      next
        case False
        then show ?thesis using nr nm by simp
      qed
    qed
  qed
next
  case (3 st rest filter_fn)
  then show ?case by simp
next
  case (4 st sub subs rest filter_fn)
  obtain ys1 e1 st1 where r1: "priv_traverse st sub rest filter_fn = ((ys1, e1), st1)"
    by (metis prod.exhaust)
  have st1: "st1 = st" using traverse_None_store(1)[OF "4.prems"(1), of st sub rest] r1 by simp
  have a1: "list_all (\<lambda>r. r < length st) ys1"
    using "4.IH"(1)[OF "4.prems"(1,2)] "4.prems"(3) r1 by simp
  show ?case
  proof (cases e1)
    case (Some e)
    then show ?thesis using r1 a1 by simp
  next
    case None
    obtain zs e2 st2 where r2: "traverse_each st1 subs rest filter_fn = ((zs, e2), st2)"
      by (metis prod.exhaust)
    have "list_all (\<lambda>r. r < length st1) zs"
      using "4.IH"(2)[OF r1[symmetric] refl None "4.prems"(1)] "4.prems"(2,3) r2 st1 by simp
    then show ?thesis using r1 r2 None a1 st1 by simp
  qed
qed

lemma traverse_paths_None_allocated:
  "wf_store st \<Longrightarrow> self < length st \<Longrightarrow>
     list_all (\<lambda>r. r < length st) (fst (fst (traverse_paths st self ps None)))"
proof (induction ps)
  case Nil
  then show ?case by simp
next
  case (Cons p ps)
  obtain ys1 e1 st1 where r1: "priv_traverse st self p None = ((ys1, e1), st1)"
    by (metis prod.exhaust)
  have st1: "st1 = st" using traverse_None_store(1)[OF refl, of st self p] r1 by simp
  have a1: "list_all (\<lambda>r. r < length st) ys1"
    using traverse_None_allocated(1)[OF refl Cons.prems, of p] r1 by simp
  obtain zs e2 st2 where r2: "traverse_paths st self ps None = ((zs, e2), st2)"
    by (metis prod.exhaust)
  have "list_all (\<lambda>r. r < length st) zs" using Cons.IH[OF Cons.prems] r2 by simp
  then show ?case using r1 r2 a1 st1 by (cases e1) simp_all
qed

lemma batch_ext:
  assumes "batch st self batch_size tp ra shuffle perm = ((ys, err), st')"
  shows "\<exists>ext. st' = st @ ext \<and> list_all (\<lambda>r. length st \<le> r) ys"
proof (cases "0 < batch_size")
  case False
  then have "ys = []" "st' = st" using assms by (simp_all add: batch_def)
  then show ?thesis by simp
next
  case bs: True
  obtain res st0 where d: "batch_docs st self tp = (res, st0)" by (metis prod.exhaust)
  from batch_docs_ext[OF d] obtain ext0 where x0: "st0 = st @ ext0" by auto
  show ?thesis
  proof (cases res)
    case (Inl e)
    then have "ys = []" "st' = st0" using assms bs d by (simp_all add: batch_def)
    then show ?thesis using x0 by simp
  next
    case (Inr docs)
    show ?thesis
    proof (cases "ra = None \<or> ra = Some []")
      case True
      obtain rs st1 where l: "batch_loop st0 docs (nat batch_size)
          [0 ..< ceil_quotient (length (coll st0 self)) batch_size] = (rs, st1)"
        by (metis prod.exhaust)
      from batch_loop_fresh[OF l] obtain ext1 where
        x1: "st1 = st0 @ ext1" "rs = [length st0 ..< length st0 + length ext1]" by blast
      have "ys = rs" "st' = st1"
        using assms bs d Inr True l by (auto simp: batch_def Let_def)
      then show ?thesis using x0 x1
        by (intro exI[of _ "ext0 @ ext1"]) (simp add: list_all_iff)
    next
      case False
      then obtain a where ra: "ra = Some a" by (cases ra) auto
      define b where "b = nat batch_size"
      define F where "F = filter (spec_passes a) (coll (st0 @ [[]]) docs)"
      define m where "m = length F div b"
      define C where "C = map (\<lambda>i. take b (drop (i * b) F)) [0 ..< Suc m]"
      have b: "0 < b" using bs by (simp add: b_def)
      have loop: "legacy_loop (st0 @ [[]]) (length st0) (coll (st0 @ [[]]) docs) (Some a) b
          = ([length st0 ..< length st0 + m], length st0 + m, st0 @ C)"
        using legacy_loop_exact[OF b, of "[]" st0 "coll (st0 @ [[]]) docs" a] b
        by (simp add: F_def m_def C_def)
      have "st' = st0 @ C
          \<and> (ys = [length st0 ..< length st0 + m] @ [length st0 + m]
             \<or> ys = [length st0 ..< length st0 + m])"
        using assms bs d Inr False ra
        by (auto simp: batch_def DocumentArray_def b_def[symmetric] loop split: if_splits)
      then show ?thesis using x0
        by (intro exI[of _ "ext0 @ C"]) (auto simp: list_all_iff)
    qed
  qed
qed

section \<open>Runs on the example trees\<close>

lemma emb_passes:
  "spec_passes ''embedding'' (emb_doc i e) = (e \<noteq> None)"
  by (simp add: spec_passes_def emb_doc_sel)

lemma ext_fresh:
  "list_all (\<lambda>r. length st \<le> r) ys \<Longrightarrow> list_all (\<lambda>r. \<not> allocated st r) ys"
  by (simp add: list_all_iff allocated_def not_less)

lemma tree_filter_run:
  "traverse tree_store 0 (SpecSeq [PStr ''c'']) (Some (\<lambda>d. doc_id d = 2))
     = (([9], None), tree_store @ [[doc_C]])"
  by (simp add: traverse_def check_traversal_path_type_def tree_store_coll tree_docs
      DocumentArray_def tree_store_length doc_B_def doc_C_def mk_doc_def)

lemma tree_flat_run:
  "traverse_flat tree_store 0 (SpecSeq [PStr ''c'']) (Some (\<lambda>d. doc_id d = 2))
     = (Inr 10, tree_store @ [[doc_C], [doc_C]])"
  by (simp add: traverse_flat_def tree_filter_run check_traversal_path_type_def
      priv_flatten_def DocumentArray_def tree_store_length coll_def nth_append)

section \<open>The claims\<close>

subsection \<open>C1: the chunks of the default mode\<close>

text \<open>
  C1 asks for \<open>ceil(N / batch_size)\<close> chunks that together are the collection being
  batched, \<open>N\<close> being its length. Without \<open>traversal_paths\<close> this is what \<open>batch\<close> does
  for every \<open>batch_size\<close> below \<open>2^1075\<close> (lemma \<open>batch_default_no_paths\<close>). With
  \<open>traversal_paths\<close> the chunks are slices of the flattened collection \<open>docs\<close>, but
  their number is computed from \<open>len(self)\<close>: over the root \<open>[A]\<close> with the path \<open>c\<close> and
  \<open>batch_size = 1\<close>, the collection being batched is \<open>[B, C]\<close> and one chunk, \<open>[B]\<close>, is
  yielded; \<open>C\<close> is never yielded.
\<close>

theorem batch_traversal_paths_drops_elements:
  "batch tree_store 0 1 (SpecSeq [PStr ''c'']) None False []
     = (([10], None), tree_store @ [[doc_B, doc_C], [doc_B]])"
proof -
  have d: "batch_docs tree_store 0 (SpecSeq [PStr ''c''])
      = (Inr 9, tree_store @ [[doc_B, doc_C]])"
    by (simp add: batch_docs_def check_traversal_path_type_def traverse_flat_def traverse_def
        priv_flatten_def DocumentArray_def tree_store_coll tree_docs tree_store_length)
  have c: "coll (tree_store @ [[doc_B, doc_C]]) 0 = [doc_A]"
          "coll (tree_store @ [[doc_B, doc_C]]) 9 = [doc_B, doc_C]"
    by (simp_all add: coll_def tree_store_def)
  show ?thesis
    using batch_default[OF _ _ _ d, of 1 None False "[]"]
    by (simp add: c tree_store_length)
qed

subsection \<open>C2: shuffling\<close>

text \<open>
  C2 asks that with \<open>shuffle=True\<close> the chunks are the slices of the collection reordered
  by the permutation the random source supplies. Over \<open>[B, C]\<close> with \<open>batch_size = 1\<close>
  and the permutation that swaps the two positions, \<open>batch\<close> yields \<open>[B]\<close> then \<open>[C]\<close>;
  the slices of the reordered collection are \<open>[C]\<close> then \<open>[B]\<close>.
\<close>

theorem batch_shuffle_not_applied:
  "batch tree_store 1 1 SpecNone None True [1, 0]
     = (([9, 10], None), tree_store @ [[doc_B], [doc_C]])
   \<and> spec_chunks 1 (map (\<lambda>j. coll tree_store 1 ! j) (np_random_shuffle [1, 0] [0 ..< 2]))
       = [[doc_C], [doc_B]]"
proof -
  have d: "batch_docs tree_store 1 SpecNone = (Inr 1, tree_store)"
    by (simp add: batch_docs_def)
  have u: "[0 ..< 2] = [0, Suc 0]" by (simp add: upt_conv_Cons)
  have "batch tree_store 1 1 SpecNone None True [1, 0]
     = (([9, 10], None), tree_store @ [[doc_B], [doc_C]])"
    using batch_default[OF _ _ _ d, of 1 None True "[1, 0]"]
    by (simp add: tree_store_coll tree_store_length u upt_conv_Cons)
  moreover have "spec_chunks 1 (map (\<lambda>j. coll tree_store 1 ! j)
                   (np_random_shuffle [1, 0] [0 ..< 2])) = [[doc_C], [doc_B]]"
    by (simp add: np_random_shuffle_def u tree_store_coll spec_chunks.simps)
  ultimately show ?thesis by simp
qed

subsection \<open>C3: \<open>traverse_flat(['r'])\<close> returns the collection itself\<close>

text \<open>
  C3. For every collection, \<open>traverse_flat\<close> with the single path \<open>r\<close> and no filter
  function returns the collection itself, the same object, and allocates nothing; with
  the single path \<open>c\<close> it returns a newly constructed flat collection, an object that did
  not exist before and so is never the input object, holding the children of the
  documents in order, and the input collection keeps its contents.
\<close>

theorem traverse_flat_root_identity:
  "traverse_flat st self (SpecSeq [PStr ''r'']) None = (Inr self, st)
   \<and> (allocated st self \<longrightarrow>
        (\<exists>r st'. traverse_flat st self (SpecSeq [PStr ''c'']) None = (Inr r, st')
           \<and> r \<noteq> self \<and> \<not> allocated st r
           \<and> coll st' r = concat (map (\<lambda>d. coll st (chunks d)) (coll st self))
           \<and> coll st' self = coll st self))"
proof -
  have c1: "check_traversal_path_type (SpecSeq [PStr ''r'']) = Inr ()"
    and c2: "check_traversal_path_type (SpecSeq [PStr ''c'']) = Inr ()"
    by (simp_all add: check_traversal_path_type_def)
  have r: "traverse_flat st self (SpecSeq [PStr ''r'']) None = (Inr self, st)"
    by (simp add: traverse_flat_def c1)
  have c: "traverse_flat st self (SpecSeq [PStr ''c'']) None
      = (Inr (length st), st @ [concat (map (\<lambda>d. coll st (chunks d)) (coll st self))])"
    by (simp add: traverse_flat_def c2 traverse_def traverse_None valid_path_def
        priv_flatten_def DocumentArray_def comp_def)
  show ?thesis
    unfolding r c by (simp add: allocated_def coll_append_new coll_append_old)
qed

text \<open>
  On the example tree: the root collection \<open>[A]\<close> at address 0 comes back as address 0,
  and the children \<open>[B, C]\<close> come back in a new object.
\<close>

theorem traverse_flat_root_identity_witness:
  "allocated tree_store 0
   \<and> traverse_flat tree_store 0 (SpecSeq [PStr ''r'']) None = (Inr 0, tree_store)
   \<and> (\<exists>r st'. traverse_flat tree_store 0 (SpecSeq [PStr ''c'']) None = (Inr r, st')
         \<and> r \<noteq> 0 \<and> \<not> allocated tree_store r \<and> coll st' r = [doc_B, doc_C]
         \<and> coll st' 0 = [doc_A])"
  using traverse_flat_root_identity [of tree_store 0]
  by (simp add: allocated_def tree_store_length tree_store_coll tree_docs)

subsection \<open>C4: several paths\<close>

text \<open>
  C4, as stated, has \<open>traverse(['c', 'cc'])\<close> over \<open>[A]\<close> yield two collections, \<open>[B, C]\<close>
  then \<open>[D]\<close>. It yields three: the children of every document the path reaches are
  yielded, and \<open>C\<close> has an empty collection of children. Likewise \<open>traverse(['cc'])\<close>
  yields \<open>[D]\<close> and then the empty collection.
\<close>

theorem traverse_yields_empty_leaves:
  "traverse tree_store 0 (SpecSeq [PStr ''c'', PStr ''cc'']) None
     = (([1, 2, 3], None), tree_store)
   \<and> map (coll tree_store) [1, 2, 3] = [[doc_B, doc_C], [doc_D], []]
   \<and> traverse tree_store 0 (SpecSeq [PStr ''cc'']) None = (([2, 3], None), tree_store)
   \<and> map (coll tree_store) [2, 3] = [[doc_D], []]"
  by (simp add: traverse_def check_traversal_path_type_def tree_store_coll tree_docs)

text \<open>
  C4, amended. The paths of a specification are processed independently and in order:
  with no filter, the collections yielded are those each path reaches from the same
  source collection, one path's whole sequence before the next path's, every reached
  collection included, empty ones too; with a filter, the yielded collections hold the
  filtered documents of those same collections, in the same order.
\<close>

theorem traverse_paths_in_order:
  "ps \<noteq> [] \<Longrightarrow> list_all valid_path ps \<Longrightarrow>
     traverse st self (SpecSeq (map PStr ps)) None
       = ((concat (map (spec_leaves st self) ps), None), st)
   \<and> (wf_store st \<and> allocated st self \<longrightarrow>
        (\<exists>rs st'. traverse st self (SpecSeq (map PStr ps)) (Some f) = ((rs, None), st')
           \<and> map (coll st') rs
               = concat (map (\<lambda>p. map (\<lambda>L. filter f (coll st L)) (spec_leaves st self p)) ps)
           \<and> take (length st) st' = st))"
proof (intro conjI impI)
  assume ne: "ps \<noteq> []" and v: "list_all valid_path ps"
  have ck: "check_traversal_path_type (SpecSeq (map PStr ps)) = Inr ()"
    using ne by (rule check_strs)
  show "traverse st self (SpecSeq (map PStr ps)) None
       = ((concat (map (spec_leaves st self) ps), None), st)"
    unfolding traverse_def ck spec_elems.simps elem_str_PStr
    using v by (simp add: traverse_paths_None)
  assume "wf_store st \<and> allocated st self"
  then have wf: "wf_store st" and al: "self < length st" by (simp_all add: allocated_def)
  define ext where
    "ext = map (\<lambda>L. filter f (coll st L)) (concat (map (spec_leaves st self) ps))"
  have r: "traverse st self (SpecSeq (map PStr ps)) (Some f)
      = (([length st ..< length st + length ext], None), st @ ext)"
    unfolding traverse_def ck spec_elems.simps elem_str_PStr
    using traverse_paths_Some[OF wf al v, of f] by (simp add: ext_def)
  have e: "ext = concat (map (\<lambda>p. map (\<lambda>L. filter f (coll st L)) (spec_leaves st self p)) ps)"
    by (simp add: ext_def map_concat comp_def)
  have "map (coll (st @ ext)) [length st ..< length st + length ext] = ext"
    by (rule coll_new_range)
  then show "\<exists>rs st'. traverse st self (SpecSeq (map PStr ps)) (Some f) = ((rs, None), st')
           \<and> map (coll st') rs
               = concat (map (\<lambda>p. map (\<lambda>L. filter f (coll st L)) (spec_leaves st self p)) ps)
           \<and> take (length st) st' = st"
    unfolding r e[symmetric] by simp
qed

text \<open>
  The example tree: \<open>['c', 'cc']\<close> yields \<open>[B, C]\<close>, \<open>[D]\<close> and the empty children of \<open>C\<close>.
\<close>

theorem traverse_paths_in_order_witness:
  "[''c'', ''cc''] \<noteq> [] \<and> list_all valid_path [''c'', ''cc'']
   \<and> wf_store tree_store \<and> allocated tree_store 0
   \<and> traverse tree_store 0 (SpecSeq [PStr ''c'', PStr ''cc'']) None
       = (([1, 2, 3], None), tree_store)
   \<and> map (coll tree_store) [1, 2, 3] = [[doc_B, doc_C], [doc_D], []]
   \<and> (\<exists>rs st'. traverse tree_store 0 (SpecSeq [PStr ''c'', PStr ''cc''])
                   (Some (\<lambda>d. doc_id d \<noteq> 1)) = ((rs, None), st')
         \<and> map (coll st') rs = [[doc_C], [doc_D], []]
         \<and> take (length tree_store) st' = tree_store)"
  using traverse_paths_in_order [of "[''c'', ''cc'']" tree_store 0 "\<lambda>d. doc_id d \<noteq> 1"]
  by (simp add: valid_path_examples tree_leaves wf_tree_store allocated_def tree_store_length
      tree_store_coll doc_A_def doc_B_def doc_C_def doc_D_def mk_doc_def)

subsection \<open>C5: the legacy mode of \<open>batch\<close>\<close>

text \<open>
  C5. In the legacy mode of \<open>batch\<close> (a non-empty \<open>require_attr\<close>, positive \<open>batch_size\<close>),
  with \<open>docs\<close> the collection the first lines of \<open>batch\<close> select (the source itself when
  no \<open>traversal_paths\<close> is given), no exception is raised and the yielded batches are, in
  order, the documents of \<open>docs\<close> that pass the filter, cut into consecutive batches of
  \<open>batch_size\<close> documents: every batch but the last is full, the last one is not empty.
  A document passes exactly when \<open>spec_passes\<close> holds: presence of the value for
  \<open>embedding\<close> and \<open>blob\<close>, truthiness of the value for every other name.
\<close>

theorem batch_legacy_mode:
  assumes "0 < batch_size" and "a \<noteq> []" and "allocated st self"
    and "batch_docs st self tp = (Inr docs, st0)"
  shows "\<exists>rs st'. batch st self batch_size tp (Some a) shuffle perm = ((rs, None), st')
           \<and> map (coll st') rs
               = spec_chunks (nat batch_size) (filter (spec_passes a) (coll st0 docs))
           \<and> concat (map (coll st') rs) = filter (spec_passes a) (coll st0 docs)
           \<and> list_all (\<lambda>c. length c = nat batch_size) (butlast (map (coll st') rs))
           \<and> list_all (\<lambda>c. c \<noteq> [] \<and> length c \<le> nat batch_size) (map (coll st') rs)"
proof -
  have al: "docs < length st0"
    using batch_docs_ext[OF assms(4)] assms(3) by (auto simp: allocated_def)
  have b: "0 < nat batch_size" using assms(1) by simp
  from batch_legacy[OF assms(1,2,4) al, of shuffle perm] obtain rs st' where
    r: "batch st self batch_size tp (Some a) shuffle perm = ((rs, None), st')"
    and c: "map (coll st') rs
             = spec_chunks (nat batch_size) (filter (spec_passes a) (coll st0 docs))"
    by blast
  have "concat (map (coll st') rs) = filter (spec_passes a) (coll st0 docs)
      \<and> list_all (\<lambda>c. length c = nat batch_size) (butlast (map (coll st') rs))
      \<and> list_all (\<lambda>c. c \<noteq> [] \<and> length c \<le> nat batch_size) (map (coll st') rs)"
    unfolding c
    by (simp add: spec_chunks_concat[OF b] spec_chunks_full[OF b] spec_chunks_sizes[OF b])
  with r c show ?thesis by blast
qed

text \<open>
  Five documents, the first and fourth without embedding, the second with an empty one:
  with \<open>batch_size = 2\<close> the second and third form the first batch, the fifth the last.
\<close>

theorem batch_legacy_mode_witness:
  "(0::int) < 2 \<and> ''embedding'' \<noteq> [] \<and> allocated emb_store 0
   \<and> batch_docs emb_store 0 SpecNone = (Inr 0, emb_store)
   \<and> (\<exists>rs st'. batch emb_store 0 2 SpecNone (Some ''embedding'') False [] = ((rs, None), st')
         \<and> map (coll st') rs
             = [[emb_doc 1 (Some []), emb_doc 2 (Some [1, 2])], [emb_doc 4 (Some [3])]])"
proof -
  have d: "batch_docs emb_store 0 SpecNone = (Inr 0, emb_store)"
    by (simp add: batch_docs_def)
  have c: "spec_chunks (nat 2) (filter (spec_passes ''embedding'') (coll emb_store 0))
      = [[emb_doc 1 (Some []), emb_doc 2 (Some [1, 2])], [emb_doc 4 (Some [3])]]"
    by (simp add: emb_store_coll emb_passes spec_chunks.simps)
  show ?thesis
    using batch_legacy_mode [of 2 "''embedding''" emb_store 0 SpecNone 0 emb_store False "[]"] d
    unfolding c by (auto simp: allocated_def emb_store_length)
qed

subsection \<open>C6: validation of the traversal paths\<close>

text \<open>
  C6, as stated, asks that a specification with an empty string among its elements is
  rejected. The check accepts it: \<open>['']\<close> passes, and \<open>traverse\<close> then yields the
  collection itself.
\<close>

theorem empty_path_string_accepted:
  "check_traversal_path_type (SpecSeq [PStr '''']) = Inr ()
   \<and> traverse tree_store 0 (SpecSeq [PStr '''']) None = (([0], None), tree_store)"
  by (simp add: check_traversal_path_type_def traverse_def)

text \<open>
  C6, amended. Validation succeeds exactly on the non-empty sequences, not themselves a
  bare string, all of whose elements are strings (empty strings included); for every
  other specification \<open>traverse\<close>, \<open>traverse_flat_per_path\<close> and \<open>traverse_flat\<close> fail with
  the \<open>TypeError\<close>, having yielded nothing and allocated nothing.
\<close>

theorem check_traversal_path_type_sequences_of_strings:
  "(check_traversal_path_type tp = Inr ()
      \<longleftrightarrow> (\<exists>ps. ps \<noteq> [] \<and> tp = SpecSeq (map PStr ps)))
   \<and> (check_traversal_path_type tp \<noteq> Inr () \<longrightarrow>
        traverse st self tp f = (([], Some TypeError_traversal_paths), st)
      \<and> traverse_flat_per_path st self tp f = (([], Some TypeError_traversal_paths), st)
      \<and> traverse_flat st self tp f = (Inl TypeError_traversal_paths, st))"
  using check_ok_iff[of tp] check_fail[of tp]
  by (auto simp: traverse_def traverse_flat_per_path_def traverse_flat_def)

text \<open>The bare string \<open>'r'\<close> is rejected by all three; \<open>['c', '']\<close> is accepted.\<close>

theorem check_traversal_path_type_sequences_of_strings_witness:
  "check_traversal_path_type (SpecStr ''r'') \<noteq> Inr ()
   \<and> traverse tree_store 0 (SpecStr ''r'') None
        = (([], Some TypeError_traversal_paths), tree_store)
   \<and> traverse_flat_per_path tree_store 0 (SpecStr ''r'') None
        = (([], Some TypeError_traversal_paths), tree_store)
   \<and> traverse_flat tree_store 0 (SpecStr ''r'') None
        = (Inl TypeError_traversal_paths, tree_store)
   \<and> check_traversal_path_type (SpecSeq (map PStr [''c'', ''''])) = Inr ()"
  using check_traversal_path_type_sequences_of_strings [of "SpecStr ''r''" tree_store 0 None]
        check_traversal_path_type_sequences_of_strings
          [of "SpecSeq (map PStr [''c'', ''''])" tree_store 0 None]
  by (simp add: check_traversal_path_type_def)

subsection \<open>C7: invalid path characters\<close>

text \<open>
  C7, as stated, has every path with a character outside \<open>r\<close>, \<open>c\<close>, \<open>m\<close> fail. The
  character is only looked at when the traversal gets to it: \<open>A\<close> has no matches, so the
  path \<open>mmx\<close> over \<open>[A]\<close> ends before its \<open>x\<close> is consumed, and no error is raised.
\<close>

theorem unreached_invalid_character_not_raised:
  "traverse tree_store 0 (SpecSeq [PStr ''mmx'']) None = (([], None), tree_store)"
  by (simp add: traverse_def check_traversal_path_type_def tree_store_coll tree_docs)

text \<open>
  C7, amended. Let a path have a first character \<open>x\<close> outside \<open>r\<close>, \<open>c\<close>, \<open>m\<close>, after a
  prefix \<open>pre\<close>. If the prefix reaches at least one collection, the traversal of the path
  fails with the invalid-path error that names \<open>x\<close>, raised when \<open>x\<close> is consumed: the
  path has yielded nothing, the earlier paths of the specification have yielded all their
  results (the reached collections themselves without a filter function, new collections
  of their filtered documents with one), and the error ends the generator. If the prefix reaches no collection, \<open>x\<close> is
  never consumed and the path ends without an error. Paths made only of \<open>r\<close>, \<open>c\<close>, \<open>m\<close>
  never raise.
\<close>

theorem invalid_path_raised_when_reached:
  "(valid_path pre \<and> x \<noteq> CHR ''r'' \<and> x \<noteq> CHR ''c'' \<and> x \<noteq> CHR ''m'' \<longrightarrow>
      priv_traverse st docs (pre @ x # post) f
        = (([], if spec_leaves st docs pre = [] then None else Some (ValueError_path x)), st)
      \<and> (list_all valid_path ps \<and> spec_leaves st docs pre \<noteq> [] \<longrightarrow>
           traverse st docs (SpecSeq (map PStr (ps @ (pre @ x # post) # qs))) None
             = ((concat (map (spec_leaves st docs) ps), Some (ValueError_path x)), st))
      \<and> (list_all valid_path ps \<and> spec_leaves st docs pre \<noteq> []
           \<and> wf_store st \<and> allocated st docs \<longrightarrow>
           (\<exists>rs st'. traverse st docs (SpecSeq (map PStr (ps @ (pre @ x # post) # qs))) (Some g)
                        = ((rs, Some (ValueError_path x)), st')
              \<and> map (coll st') rs
                  = concat (map (\<lambda>p. map (\<lambda>L. filter g (coll st L)) (spec_leaves st docs p)) ps)
              \<and> list_all (\<lambda>r. \<not> allocated st r) rs
              \<and> take (length st) st' = st)))
   \<and> (valid_path p \<longrightarrow> snd (fst (priv_traverse st docs p f)) = None)
   \<and> (ps \<noteq> [] \<and> list_all valid_path ps \<longrightarrow>
        snd (fst (traverse st docs (SpecSeq (map PStr ps)) f)) = None)"
proof (intro conjI impI)
  assume a: "valid_path pre \<and> x \<noteq> CHR ''r'' \<and> x \<noteq> CHR ''c'' \<and> x \<noteq> CHR ''m''"
  then show "priv_traverse st docs (pre @ x # post) f
        = (([], if spec_leaves st docs pre = [] then None else Some (ValueError_path x)), st)"
    by (simp add: traverse_invalid)
  have ck: "check_traversal_path_type (SpecSeq (map PStr (ps @ (pre @ x # post) # qs))) = Inr ()"
    by (rule check_strs) simp
  {
    assume b: "list_all valid_path ps \<and> spec_leaves st docs pre \<noteq> []"
    show "traverse st docs (SpecSeq (map PStr (ps @ (pre @ x # post) # qs))) None
               = ((concat (map (spec_leaves st docs) ps), Some (ValueError_path x)), st)"
      using a b ck unfolding traverse_def spec_elems.simps elem_str_PStr
      by (simp add: traverse_paths_invalid)
  }
  assume c: "list_all valid_path ps \<and> spec_leaves st docs pre \<noteq> []
           \<and> wf_store st \<and> allocated st docs"
  define ext where
    "ext = map (\<lambda>L. filter g (coll st L)) (concat (map (spec_leaves st docs) ps))"
  have r: "traverse st docs (SpecSeq (map PStr (ps @ (pre @ x # post) # qs))) (Some g)
      = (([length st ..< length st + length ext], Some (ValueError_path x)), st @ ext)"
    unfolding traverse_def ck spec_elems.simps elem_str_PStr
    using traverse_paths_invalid_Some[of st docs ps pre x post qs g] a c
    by (simp add: ext_def allocated_def)
  have e: "ext = concat (map (\<lambda>p. map (\<lambda>L. filter g (coll st L)) (spec_leaves st docs p)) ps)"
    by (simp add: ext_def map_concat comp_def)
  have "map (coll (st @ ext)) [length st ..< length st + length ext] = ext"
    by (rule coll_new_range)
  moreover have "list_all (\<lambda>r. \<not> allocated st r) [length st ..< length st + length ext]"
    by (rule fresh_range)
  ultimately show "\<exists>rs st'.
         traverse st docs (SpecSeq (map PStr (ps @ (pre @ x # post) # qs))) (Some g)
           = ((rs, Some (ValueError_path x)), st')
         \<and> map (coll st') rs
             = concat (map (\<lambda>p. map (\<lambda>L. filter g (coll st L)) (spec_leaves st docs p)) ps)
         \<and> list_all (\<lambda>r. \<not> allocated st r) rs
         \<and> take (length st) st' = st"
    unfolding r e[symmetric] by simp
next
  assume "valid_path p"
  then show "snd (fst (priv_traverse st docs p f)) = None"
    by (rule traverse_valid_no_error(1))
next
  assume a: "ps \<noteq> [] \<and> list_all valid_path ps"
  then have "check_traversal_path_type (SpecSeq (map PStr ps)) = Inr ()"
    by (simp add: check_strs)
  then show "snd (fst (traverse st docs (SpecSeq (map PStr ps)) f)) = None"
    using a unfolding traverse_def spec_elems.simps elem_str_PStr
    by (simp add: traverse_paths_valid_no_error)
qed

text \<open>
  The path \<open>cxm\<close> over \<open>[A]\<close> raises for \<open>x\<close>; in \<open>['r', 'cxm', 'c']\<close> the result of \<open>r\<close> is
  yielded first, the collection itself without a filter and a new collection holding
  \<open>A\<close> with a filter that \<open>A\<close> passes.
\<close>

theorem invalid_path_raised_when_reached_witness:
  "valid_path ''c'' \<and> CHR ''x'' \<noteq> CHR ''r'' \<and> CHR ''x'' \<noteq> CHR ''c'' \<and> CHR ''x'' \<noteq> CHR ''m''
   \<and> list_all valid_path [''r''] \<and> spec_leaves tree_store 0 ''c'' \<noteq> []
   \<and> wf_store tree_store \<and> allocated tree_store 0
   \<and> valid_path ''cc'' \<and> [''r''] \<noteq> []
   \<and> priv_traverse tree_store 0 ''cxm'' None
        = (([], Some (ValueError_path CHR ''x'')), tree_store)
   \<and> traverse tree_store 0 (SpecSeq [PStr ''r'', PStr ''cxm'', PStr ''c'']) None
        = (([0], Some (ValueError_path CHR ''x'')), tree_store)
   \<and> (\<exists>rs st'. traverse tree_store 0 (SpecSeq [PStr ''r'', PStr ''cxm'', PStr ''c''])
                   (Some (\<lambda>d. doc_id d = 0))
                   = ((rs, Some (ValueError_path CHR ''x'')), st')
         \<and> map (coll st') rs = [[doc_A]]
         \<and> list_all (\<lambda>r. \<not> allocated tree_store r) rs
         \<and> take (length tree_store) st' = tree_store)
   \<and> snd (fst (priv_traverse tree_store 0 ''cc'' None)) = None
   \<and> snd (fst (traverse tree_store 0 (SpecSeq [PStr ''r'']) None)) = None"
  using invalid_path_raised_when_reached [where pre = "''c''" and x = "CHR ''x''" and st = tree_store and docs = 0
                  and post = "''m''" and f = None and ps = "[''r'']" and qs = "[''c'']"
                  and p = "''cc''" and g = "\<lambda>d. doc_id d = 0"]
  by (simp add: valid_path_examples tree_leaves tree_store_coll tree_docs wf_tree_store
      allocated_def tree_store_length doc_A_def mk_doc_def)

subsection \<open>C8: what is yielded at the end of a path\<close>

text \<open>
  C8. For every path of \<open>r\<close>, \<open>c\<close>, \<open>m\<close> and every collection \<open>L\<close> the traversal reaches
  at the end of the path: with no filter function \<open>L\<close> itself is yielded, the same
  object, and nothing is allocated; with a filter function, a newly built collection is
  yielded in its place, an object that did not exist before, holding exactly the
  documents of \<open>L\<close> for which the filter is true, in their order, and no existing
  collection, \<open>L\<close> included, is changed.
\<close>

theorem traverse_path_end:
  "valid_path p \<Longrightarrow>
     priv_traverse st docs p None = ((spec_leaves st docs p, None), st)
   \<and> (wf_store st \<and> allocated st docs \<longrightarrow>
        (\<exists>rs st'. priv_traverse st docs p (Some f) = ((rs, None), st')
           \<and> map (coll st') rs = map (\<lambda>L. filter f (coll st L)) (spec_leaves st docs p)
           \<and> list_all (\<lambda>r. \<not> allocated st r) rs \<and> distinct rs
           \<and> take (length st) st' = st))"
proof (intro conjI impI)
  assume v: "valid_path p"
  show "priv_traverse st docs p None = ((spec_leaves st docs p, None), st)"
    using v by (simp add: traverse_None)
  assume "wf_store st \<and> allocated st docs"
  then have wf: "wf_store st" and al: "docs < length st" by (simp_all add: allocated_def)
  define ext where "ext = map (\<lambda>L. filter f (coll st L)) (spec_leaves st docs p)"
  have r: "priv_traverse st docs p (Some f)
      = (([length st ..< length st + length ext], None), st @ ext)"
    using traverse_Some(1)[OF refl wf al v, of f] by (simp add: ext_def)
  have "map (coll (st @ ext)) [length st ..< length st + length ext] = ext"
    by (rule coll_new_range)
  moreover have "list_all (\<lambda>r. \<not> allocated st r) [length st ..< length st + length ext]"
    by (rule fresh_range)
  ultimately show "\<exists>rs st'. priv_traverse st docs p (Some f) = ((rs, None), st')
           \<and> map (coll st') rs = map (\<lambda>L. filter f (coll st L)) (spec_leaves st docs p)
           \<and> list_all (\<lambda>r. \<not> allocated st r) rs \<and> distinct rs
           \<and> take (length st) st' = st"
    unfolding r ext_def[symmetric] by simp
qed

text \<open>
  The path \<open>r\<close> over five documents of which two satisfy the filter: without the filter
  the collection itself, with it one new collection of those two documents, in order.
\<close>

theorem traverse_path_end_witness:
  "valid_path ''r'' \<and> wf_store emb_store \<and> allocated emb_store 0
   \<and> priv_traverse emb_store 0 ''r'' None = (([0], None), emb_store)
   \<and> (\<exists>rs st'. priv_traverse emb_store 0 ''r'' (Some (\<lambda>d. embedding d = None))
                   = ((rs, None), st')
         \<and> map (coll st') rs = [[emb_doc 0 None, emb_doc 3 None]]
         \<and> list_all (\<lambda>r. \<not> allocated emb_store r) rs \<and> distinct rs
         \<and> take (length emb_store) st' = emb_store)"
  using traverse_path_end [of "''r''" emb_store 0 "\<lambda>d. embedding d = None"]
  by (simp add: valid_path_def wf_emb_store allocated_def emb_store_length emb_store_coll
      emb_doc_sel)

subsection \<open>C9: the source tree and the yielded collections\<close>

text \<open>
  C9, as stated, has every collection that is yielded or returned be a fresh allocation,
  never the source collection or one of its existing sub-collections. Without a filter
  function the collections handed out are the existing objects: \<open>traverse_flat(['r'])\<close>
  returns the source collection, \<open>traverse(['r'])\<close> yields it, and \<open>traverse(['c'])\<close> over
  \<open>[A]\<close> yields the children collection of \<open>A\<close> itself.
\<close>

theorem traverse_yields_existing_collections:
  "allocated tree_store 0
   \<and> traverse_flat tree_store 0 (SpecSeq [PStr ''r'']) None = (Inr 0, tree_store)
   \<and> traverse tree_store 0 (SpecSeq [PStr ''r'']) None = (([0], None), tree_store)
   \<and> chunks doc_A = 1 \<and> allocated tree_store 1
   \<and> traverse tree_store 0 (SpecSeq [PStr ''c'']) None = (([1], None), tree_store)"
  by (simp add: allocated_def tree_store_length traverse_flat_def traverse_def
      check_traversal_path_type_def tree_store_coll tree_docs)

text \<open>
  C9, amended. Every operation leaves every existing collection object, and with it the
  source tree, unchanged: the store afterwards is the store before, followed by the newly
  allocated collections. The collections yielded by \<open>batch\<close>, by
  \<open>traverse_flat_per_path\<close> and by \<open>traverse\<close> with a filter function are fresh
  allocations, and so is the collection \<open>traverse_flat\<close> returns, outside the case of
  the single path \<open>r\<close> without a filter function, where it returns the source
  collection itself. Without a filter function \<open>traverse\<close> allocates nothing and yields
  existing collections, the source collection or sub-collections of the tree.
\<close>

theorem operations_preserve_store:
  "take (length st) (snd (traverse st self tp f)) = st
   \<and> (f \<noteq> None \<longrightarrow> list_all (\<lambda>r. \<not> allocated st r) (fst (fst (traverse st self tp f))))
   \<and> (f = None \<and> wf_store st \<and> allocated st self \<longrightarrow>
        snd (traverse st self tp f) = st
        \<and> list_all (allocated st) (fst (fst (traverse st self tp f))))
   \<and> take (length st) (snd (traverse_flat_per_path st self tp f)) = st
   \<and> list_all (\<lambda>r. \<not> allocated st r) (fst (fst (traverse_flat_per_path st self tp f)))
   \<and> take (length st) (snd (traverse_flat st self tp f)) = st
   \<and> (\<not> (f = None \<and> spec_elems tp = [PStr ''r'']) \<longrightarrow>
        (\<forall>r. fst (traverse_flat st self tp f) = Inr r \<longrightarrow> \<not> allocated st r))
   \<and> (f = None \<and> spec_elems tp = [PStr ''r''] \<and> check_traversal_path_type tp = Inr () \<longrightarrow>
        traverse_flat st self tp f = (Inr self, st))
   \<and> take (length st) (snd (batch st self batch_size tp ra shuffle perm)) = st
   \<and> list_all (\<lambda>r. \<not> allocated st r) (fst (fst (batch st self batch_size tp ra shuffle perm)))"
proof -
  obtain ys1 e1 st1 where r1: "traverse st self tp f = ((ys1, e1), st1)"
    by (metis prod.exhaust)
  from traverse_ext[OF r1] obtain x1 where
    x1: "st1 = st @ x1" "f = None \<longrightarrow> x1 = []"
        "f \<noteq> None \<longrightarrow> ys1 = [length st ..< length st + length x1]" by blast
  have A: "take (length st) (snd (traverse st self tp f)) = st"
    unfolding r1 using x1(1) by simp
  have B: "f \<noteq> None \<longrightarrow> list_all (\<lambda>r. \<not> allocated st r) (fst (fst (traverse st self tp f)))"
    unfolding r1 using x1(3) by (simp add: fresh_range)
  have C: "f = None \<and> wf_store st \<and> allocated st self \<longrightarrow>
        snd (traverse st self tp f) = st
        \<and> list_all (allocated st) (fst (fst (traverse st self tp f)))"
  proof (intro impI conjI)
    assume h: "f = None \<and> wf_store st \<and> allocated st self"
    show "snd (traverse st self tp f) = st" unfolding r1 using x1 h by simp
    show "list_all (allocated st) (fst (fst (traverse st self tp f)))"
    proof (cases "check_traversal_path_type tp")
      case (Inl e)
      then show ?thesis by (simp add: traverse_def)
    next
      case (Inr u)
      have "list_all (\<lambda>r. r < length st)
              (fst (fst (traverse_paths st self (map elem_str (spec_elems tp)) None)))"
        using h by (intro traverse_paths_None_allocated) (simp_all add: allocated_def)
      then show ?thesis using Inr h by (simp add: traverse_def allocated_def[abs_def])
    qed
  qed
  obtain ys2 e2 st2 where r2: "traverse_flat_per_path st self tp f = ((ys2, e2), st2)"
    by (metis prod.exhaust)
  from traverse_flat_per_path_ext[OF r2] obtain x2 where
    x2: "st2 = st @ x2" "list_all (\<lambda>r. length st \<le> r) ys2" by blast
  have D: "take (length st) (snd (traverse_flat_per_path st self tp f)) = st"
    unfolding r2 using x2(1) by simp
  have E: "list_all (\<lambda>r. \<not> allocated st r) (fst (fst (traverse_flat_per_path st self tp f)))"
    unfolding r2 using ext_fresh[OF x2(2)] by simp
  obtain res st3 where r3: "traverse_flat st self tp f = (res, st3)"
    by (metis prod.exhaust)
  have F: "take (length st) (snd (traverse_flat st self tp f)) = st"
    unfolding r3 using traverse_flat_ext[OF r3] by auto
  have G: "\<not> (f = None \<and> spec_elems tp = [PStr ''r'']) \<longrightarrow>
        (\<forall>r. fst (traverse_flat st self tp f) = Inr r \<longrightarrow> \<not> allocated st r)"
    unfolding r3 using traverse_flat_ext[OF r3] by (auto simp: allocated_def)
  obtain ys4 e4 st4 where r4: "batch st self batch_size tp ra shuffle perm = ((ys4, e4), st4)"
    by (metis prod.exhaust)
  from batch_ext[OF r4] obtain x4 where
    x4: "st4 = st @ x4" "list_all (\<lambda>r. length st \<le> r) ys4" by blast
  have H: "take (length st) (snd (batch st self batch_size tp ra shuffle perm)) = st"
    unfolding r4 using x4(1) by simp
  have I: "list_all (\<lambda>r. \<not> allocated st r)
             (fst (fst (batch st self batch_size tp ra shuffle perm)))"
    unfolding r4 using ext_fresh[OF x4(2)] by simp
  have J: "f = None \<and> spec_elems tp = [PStr ''r''] \<and> check_traversal_path_type tp = Inr () \<longrightarrow>
        traverse_flat st self tp f = (Inr self, st)"
    by (simp add: traverse_flat_def)
  from A B C D E F G J H I show ?thesis by (intro conjI)
qed

text \<open>
  The path \<open>c\<close> over \<open>[A]\<close>: with a filter the new objects 9 and 10 are handed out,
  without one the existing children collection.
\<close>

theorem operations_preserve_store_witness:
  "Some (\<lambda>d. doc_id d = 2) \<noteq> None \<and> wf_store tree_store \<and> allocated tree_store 0
   \<and> \<not> (Some (\<lambda>d. doc_id d = 2) = None \<and> spec_elems (SpecSeq [PStr ''c'']) = [PStr ''r''])
   \<and> traverse tree_store 0 (SpecSeq [PStr ''c'']) (Some (\<lambda>d. doc_id d = 2))
        = (([9], None), tree_store @ [[doc_C]])
   \<and> \<not> allocated tree_store 9
   \<and> take (length tree_store) (tree_store @ [[doc_C]]) = tree_store
   \<and> traverse_flat tree_store 0 (SpecSeq [PStr ''c'']) (Some (\<lambda>d. doc_id d = 2))
        = (Inr 10, tree_store @ [[doc_C], [doc_C]])
   \<and> \<not> allocated tree_store 10
   \<and> snd (traverse tree_store 0 (SpecSeq [PStr ''c'']) None) = tree_store
   \<and> list_all (allocated tree_store) (fst (fst (traverse tree_store 0 (SpecSeq [PStr ''c'']) None)))
   \<and> list_all (\<lambda>r. \<not> allocated tree_store r)
        (fst (fst (traverse_flat_per_path tree_store 0 (SpecSeq [PStr ''c''])
                     (Some (\<lambda>d. doc_id d = 2)))))
   \<and> list_all (\<lambda>r. \<not> allocated tree_store r)
        (fst (fst (batch tree_store 0 1 (SpecSeq [PStr ''c'']) None False [])))
   \<and> spec_elems (SpecSeq [PStr ''r'']) = [PStr ''r'']
   \<and> check_traversal_path_type (SpecSeq [PStr ''r'']) = Inr ()
   \<and> traverse_flat tree_store 0 (SpecSeq [PStr ''r'']) None = (Inr 0, tree_store)"
  using operations_preserve_store [of tree_store 0 "SpecSeq [PStr ''c'']" "Some (\<lambda>d. doc_id d = 2)" 1 None False "[]"]
        operations_preserve_store [of tree_store 0 "SpecSeq [PStr ''c'']" None 1 None False "[]"]
        operations_preserve_store [of tree_store 0 "SpecSeq [PStr ''r'']" None 1 None False "[]"]
  by (simp add: wf_tree_store tree_filter_run tree_flat_run allocated_def tree_store_length
      check_traversal_path_type_def)

subsection \<open>C10: the default mode of \<open>batch\<close> ignores \<open>shuffle\<close>\<close>

text \<open>
  C10. In the default mode of \<open>batch\<close> (no \<open>require_attr\<close>, no \<open>traversal_paths\<close>), for
  every collection and every positive \<open>batch_size\<close>, \<open>shuffle=True\<close> yields the same
  chunks in the same order, and leaves the same store, as \<open>shuffle=False\<close>, whatever
  permutations the random source supplies.
\<close>

theorem batch_ignores_shuffle:
  "0 < batch_size \<Longrightarrow>
   batch st self batch_size SpecNone None True perm
     = batch st self batch_size SpecNone None False perm'"
  by (simp add: batch_def Let_def split: prod.splits sum.splits)

text \<open>
  Batches of one document over \<open>[B, C]\<close>, the random source swapping the two positions:
  \<open>[B]\<close> then \<open>[C]\<close>, as without shuffling.
\<close>

theorem batch_ignores_shuffle_witness:
  "(0::int) < 1
   \<and> batch tree_store 1 1 SpecNone None True [1, 0]
       = batch tree_store 1 1 SpecNone None False [0, 1]
   \<and> batch tree_store 1 1 SpecNone None True [1, 0]
       = (([9, 10], None), tree_store @ [[doc_B], [doc_C]])"
proof -
  have n: "ceil_quotient (Suc (Suc 0)) 1 = Suc (Suc 0)"
    using n_batches_eq[of 1 "Suc (Suc 0)"] by simp
  show ?thesis
    using batch_ignores_shuffle [of 1 tree_store 1 "[1, 0]" "[0, 1]"]
    by (simp add: batch_def batch_docs_def Let_def tree_store_coll DocumentArray_def slice_def
        coll_append_old tree_store_length n)
qed

end
